theory Spec2Isabelle
  imports Main "HOL-Library.Word" "HOL-Library.Multiset"
begin

unbundle bit_operations_syntax

section \<open>Instruction words (AlphaCode)\<close>

text \<open>
  An \<open>AlphaCode\<close> is a 64-bit word whose high byte is the opcode tag.  The
  constructors below are the C++ functions and constants of the same names in
  \<^verbatim>\<open>atari2600Export.cpp\<close>.
\<close>

type_synonym AlphaCode = "64 word"

datatype CODE_TYPE = STOP | WRITE_DELTA | PAUSE | SUSTAIN | JUMP | BRANCH_POINT | SKIP
  | TAKE_DATA_JUMP | TAKE_TRACK_JUMP | RETURN_LAST | RETURN_FF | RETURN_NOOP

text \<open>The numeric value of each enumerator, as a 64-bit word.\<close>

fun code_type_tag :: "CODE_TYPE \<Rightarrow> AlphaCode" where
  "code_type_tag STOP = 0"
| "code_type_tag WRITE_DELTA = 1"
| "code_type_tag PAUSE = 2"
| "code_type_tag SUSTAIN = 3"
| "code_type_tag JUMP = 4"
| "code_type_tag BRANCH_POINT = 5"
| "code_type_tag SKIP = 6"
| "code_type_tag TAKE_DATA_JUMP = 7"
| "code_type_tag TAKE_TRACK_JUMP = 8"
| "code_type_tag RETURN_LAST = 9"
| "code_type_tag RETURN_FF = 10"
| "code_type_tag RETURN_NOOP = 11"

datatype CHANGE_STATE = NOOP | CHANGE

fun change_state_val :: "CHANGE_STATE \<Rightarrow> nat" where
  "change_state_val NOOP = 0"
| "change_state_val CHANGE = 1"

definition CODE_WRITE_DELTA ::
  "CHANGE_STATE \<Rightarrow> 8 word \<Rightarrow> CHANGE_STATE \<Rightarrow> 8 word \<Rightarrow> CHANGE_STATE \<Rightarrow> 8 word \<Rightarrow> 8 word
    \<Rightarrow> AlphaCode" where
  "CODE_WRITE_DELTA cc cx fc fx vc vx duration =
     push_bit 56 (code_type_tag WRITE_DELTA) OR
     push_bit 48 (of_nat (change_state_val cc)) OR
     push_bit 40 (ucast cx) OR
     push_bit 32 (of_nat (change_state_val fc)) OR
     push_bit 24 (ucast fx) OR
     push_bit 16 (of_nat (change_state_val vc)) OR
     push_bit 8 (ucast vx) OR
     ucast duration"

definition CODE_PAUSE :: "8 word \<Rightarrow> AlphaCode" where
  "CODE_PAUSE duration = push_bit 56 (code_type_tag PAUSE) OR ucast duration"

definition CODE_SUSTAIN :: "8 word \<Rightarrow> AlphaCode" where
  "CODE_SUSTAIN duration = push_bit 56 (code_type_tag SUSTAIN) OR ucast duration"

definition CODE_STOP :: AlphaCode where
  "CODE_STOP = push_bit 56 (code_type_tag STOP)"

definition CODE_BRANCH_POINT :: AlphaCode where
  "CODE_BRANCH_POINT = push_bit 56 (code_type_tag BRANCH_POINT) OR 0"

definition CODE_SKIP :: AlphaCode where
  "CODE_SKIP = push_bit 56 (code_type_tag SKIP) OR 0"

definition CODE_TAKE_DATA_JUMP :: AlphaCode where
  "CODE_TAKE_DATA_JUMP = push_bit 56 (code_type_tag TAKE_DATA_JUMP)"

definition CODE_TAKE_TRACK_JUMP :: AlphaCode where
  "CODE_TAKE_TRACK_JUMP = push_bit 56 (code_type_tag TAKE_TRACK_JUMP)"

definition CODE_RETURN_LAST :: AlphaCode where
  "CODE_RETURN_LAST = push_bit 56 (code_type_tag RETURN_LAST)"

definition CODE_RETURN_FF :: AlphaCode where
  "CODE_RETURN_FF = push_bit 56 (code_type_tag RETURN_FF)"

definition CODE_RETURN_NOOP :: AlphaCode where
  "CODE_RETURN_NOOP = push_bit 56 (code_type_tag RETURN_NOOP)"

text \<open>
  \<open>CODE_JUMP\<close> takes \<open>int subsong\<close>, \<open>int channel\<close> and \<open>size_t address\<close>; each is
  cast to the 64-bit word type before shifting (a negative \<open>int\<close> sign-extends).
\<close>

definition CODE_JUMP :: "int \<Rightarrow> int \<Rightarrow> nat \<Rightarrow> AlphaCode" where
  "CODE_JUMP subsong channel address =
     push_bit 56 (code_type_tag JUMP) OR
     push_bit 48 (word_of_int subsong) OR
     push_bit 40 (word_of_int channel) OR
     of_nat address"

definition GET_CODE_JUMP_ADDRESS :: "AlphaCode \<Rightarrow> nat" where
  "GET_CODE_JUMP_ADDRESS c = unat (c AND 0x1fff)"

text \<open>
  \<open>GET_CODE_TYPE\<close> casts \<open>code >> 56\<close> to the enumeration; the model keeps the
  numeric tag and compares it with \<^const>\<open>code_type_tag\<close>.
\<close>

definition GET_CODE_TYPE :: "AlphaCode \<Rightarrow> AlphaCode" where
  "GET_CODE_TYPE code = drop_bit 56 code"

definition GET_CODE_WRITE_DURATION :: "AlphaCode \<Rightarrow> 8 word" where
  "GET_CODE_WRITE_DURATION c = ucast (c AND 0xff)"

section \<open>Code emitter\<close>

text \<open>
  \<open>ChannelState\<close> holds \<open>registers[0..2]\<close>: control (AUDC), frequency (AUDF)
  and volume (AUDV), each an \<open>unsigned char\<close>.
\<close>

record ChannelState =
  audc :: "8 word"
  audf :: "8 word"
  audv :: "8 word"

text \<open>
  The parameter \<open>duration\<close> has the plain type \<open>char\<close>, whose signedness is chosen
  by the platform.  The model takes that choice as the flag \<open>char_signed\<close> and
  the byte passed as an \<open>8 word\<close>.
\<close>

definition char_to_int :: "bool \<Rightarrow> 8 word \<Rightarrow> int" where
  "char_to_int char_signed d = (if char_signed then sint d else uint d)"

text \<open>The trailing \<open>while (framecount > 0)\<close> loop of \<open>encodeChannelStateCodes\<close>.\<close>

function sustain_loop :: "int \<Rightarrow> nat \<Rightarrow> AlphaCode list \<Rightarrow> nat \<times> AlphaCode list" where
  "sustain_loop framecount codesWritten out =
     (if framecount > 0 then
        (let dx = (if framecount > 16 then 16 else framecount)
         in sustain_loop (framecount - dx) (codesWritten + 1)
              (out @ [CODE_SUSTAIN (word_of_int dx)]))
      else (codesWritten, out))"
  by pat_completeness auto
termination
  by (relation "measure (\<lambda>(framecount, codesWritten, out). nat framecount)") auto

declare sustain_loop.simps [simp del]

text \<open>
  \<open>encodeChannelStateCodes\<close>: appends to \<open>out\<close> and returns the number of codes
  written together with the extended vector.  The comparisons
  \<open>audvx == last.registers[2] + 1\<close> are made on promoted \<open>int\<close>s, so they do
  not wrap.
\<close>

definition encodeChannelStateCodes ::
  "bool \<Rightarrow> ChannelState \<Rightarrow> 8 word \<Rightarrow> ChannelState \<Rightarrow> AlphaCode list \<Rightarrow> nat \<times> AlphaCode list" where
  "encodeChannelStateCodes char_signed nxt duration lastst out =
    (let d = char_to_int char_signed duration;
         framecount = (if d > 0 then d else 1);
         audcx = audc nxt;
         cc = (if audcx \<noteq> audc lastst then CHANGE else NOOP);
         audfx = audf nxt;
         fc = (if audfx \<noteq> audf lastst then CHANGE else NOOP);
         audvx = audv nxt;
         vc = (if audvx \<noteq> audv lastst then CHANGE else NOOP);
         audvx = (if uint audvx = uint (audv lastst) + 1 then 0x10
                  else if uint (audv lastst) = uint audvx + 1 then 0xf0
                  else audvx);
         dx = (1 :: 8 word);
         framecount = framecount - uint dx;
         fc = (if change_state_val cc > 0 then CHANGE else fc);
         vc = (if change_state_val cc > 0 then CHANGE else vc)
     in if audvx = 0 then
          sustain_loop framecount 1 (out @ [CODE_PAUSE dx])
        else if change_state_val cc + change_state_val fc + change_state_val vc > 0 then
          sustain_loop framecount 1
            (out @ [CODE_WRITE_DELTA
                      cc (if cc = NOOP then 0 else audcx)
                      fc (if fc = NOOP then 0 else audfx)
                      vc (if vc = NOOP then 0 else audvx)
                      dx])
        else sustain_loop framecount 0 out)"

text \<open>
  The run of \<open>SUSTAIN\<close> codes for a residual of \<open>r\<close> frames, written in closed
  form: as many full codes of 16 frames as fit, then one code for what is left.
  The loop above is proved equal to it below.
\<close>

definition sustain_run :: "nat \<Rightarrow> AlphaCode list" where
  "sustain_run r =
     replicate (r div 16) (CODE_SUSTAIN 16) @
     (if r mod 16 = 0 then [] else [CODE_SUSTAIN (of_nat (r mod 16))])"

section \<open>Bitstream\<close>

text \<open>
  The class \<open>Bitstream\<close> of \<^verbatim>\<open>huffman.h\<close>: a buffer of 64-bit words, a fixed
  capacity in bits, the cursor \<open>pos\<close> and the high-water mark \<open>endPos\<close>.  Cursors
  are \<open>size_t\<close>; they stay far below \<open>2^64\<close> and are modelled as \<open>nat\<close>.
\<close>

record Bitstream =
  buffer :: "64 word list"
  capacity :: nat
  pos :: nat
  endPos :: nat

text \<open>
  \<open>AssertionFailed\<close> is a failed \<open>assert\<close>.  The other two stand for behaviour the
  language leaves undefined and the source does not guard: indexing \<open>buffer\<close> past
  its end, and shifting an \<open>int\<close> by 32 or more.
\<close>

datatype bitstream_error = AssertionFailed | UndefinedShift | OutOfBounds

text \<open>
  \<open>readByte\<close>.  In the second branch \<open>pos\<close> has already been advanced, so
  \<open>pos % 64\<close> is below 8 there and \<open>8 - (pos % 64)\<close> does not wrap.
\<close>

definition readByte :: "Bitstream \<Rightarrow> bitstream_error + (8 word \<times> Bitstream)" where
  "readByte bs =
    (let s = pos bs mod 64;
         address = drop_bit 6 (pos bs);
         bs' = bs\<lparr>pos := pos bs + 8\<rparr>;
         nxt = drop_bit 6 (pos bs')
     in if \<not> address < length (buffer bs) then Inl OutOfBounds
        else
          let result = (ucast (drop_bit s (buffer bs ! address) AND 0xff) :: 8 word)
          in if nxt > address then
               let s = 8 - (pos bs' mod 64);
                   result = result OR ucast (push_bit s (buffer bs ! address) AND 0xff)
               in Inr (result, bs')
             else Inr (result, bs'))"

text \<open>
  \<open>uint64_t mask = 1 << s;\<close> The literal \<open>1\<close> is an \<open>int\<close>, so this is a 32-bit
  signed shift whose result is then converted to 64 bits: for \<open>s = 31\<close> it is
  \<open>INT_MIN\<close>, which sign-extends; for \<open>s \<ge> 32\<close> the shift is undefined.
\<close>

definition shl_int_1 :: "nat \<Rightarrow> 64 word option" where
  "shl_int_1 s = (if s < 32 then Some (scast (push_bit s (1 :: 32 word))) else None)"

definition writeBit :: "bool \<Rightarrow> Bitstream \<Rightarrow> bitstream_error + Bitstream" where
  "writeBit b bs =
    (if \<not> pos bs < capacity bs then Inl AssertionFailed
     else
       let s = pos bs mod 64;
           address = drop_bit 6 (pos bs)
       in case shl_int_1 s of
            None \<Rightarrow> Inl UndefinedShift
          | Some msk \<Rightarrow>
              if \<not> address < length (buffer bs) then Inl OutOfBounds
              else
                let w = buffer bs ! address;
                    buffer' = (buffer bs)[address := (if b then w OR msk else w AND NOT msk)];
                    pos' = pos bs + 1
                in Inr (bs\<lparr>buffer := buffer', pos := pos',
                          endPos := (if pos' > endPos bs then pos' else endPos bs)\<rparr>))"

text \<open>
  \<open>writeByte\<close>: \<open>while (mask > 0) { writeBit(byte & mask > 0); mask = mask >> 1; }\<close>.
  Since \<open>>\<close> binds tighter than \<open>&\<close>, the argument is \<open>byte & (mask > 0)\<close>, an
  \<open>int\<close> converted to \<open>bool\<close>.
\<close>

function writeByte_loop :: "8 word \<Rightarrow> 8 word \<Rightarrow> Bitstream \<Rightarrow> bitstream_error + Bitstream" where
  "writeByte_loop byte msk bs =
     (if msk > 0 then
        (case writeBit ((ucast byte AND (if msk > 0 then 1 else 0 :: 32 word)) \<noteq> 0) bs of
           Inl e \<Rightarrow> Inl e
         | Inr bs' \<Rightarrow> writeByte_loop byte (drop_bit 1 msk) bs')
      else Inr bs)"
  by pat_completeness auto
termination
proof (relation "measure (\<lambda>(byte, msk, bs). unat msk)")
  show "wf (measure (\<lambda>(byte, msk, bs). unat msk))" by simp
next
  fix byte msk :: "8 word" and bs x2 :: Bitstream
  assume "0 < msk"
  then have "unat msk \<noteq> 0" by (simp add: unat_gt_0 word_greater_zero_iff)
  then have "unat msk div 2 < unat msk" by simp
  then show "((byte, drop_bit 1 msk, x2), (byte, msk, bs)) \<in> measure (\<lambda>(byte, msk, bs). unat msk)"
    by (simp add: drop_bit_eq_div unat_div)
qed

declare writeByte_loop.simps [simp del]

definition writeByte :: "8 word \<Rightarrow> Bitstream \<Rightarrow> bitstream_error + Bitstream" where
  "writeByte byte bs = writeByte_loop byte 0x80 bs"

text \<open>
  Reference reading of the stream, used to state what the operations should do: bit
  \<open>p\<close> of the stream is bit \<open>p mod 64\<close> of word \<open>p div 64\<close> (the position
  \<open>writeBit\<close> addresses), and the byte at \<open>p\<close> collects the eight bits from \<open>p\<close>
  on, the first one lowest.
\<close>

definition stream_bit :: "Bitstream \<Rightarrow> nat \<Rightarrow> bool" where
  "stream_bit bs p = bit (buffer bs ! (p div 64)) (p mod 64)"

definition stream_byte :: "Bitstream \<Rightarrow> nat \<Rightarrow> 8 word" where
  "stream_byte bs p = horner_sum of_bool 2 (map (\<lambda>k. stream_bit bs (p + k)) [0..<8])"

section \<open>Huffman tree construction\<close>

text \<open>
  \<open>struct HuffmanTree\<close>: a leaf owns a code and a weight; an internal node is
  built from two subtrees and gets code 0, the sum of their weights and one more
  than the larger depth.  These fields are fixed at construction, so the model
  computes them from the tree.  Weights are \<open>size_t\<close>, modelled as \<open>nat\<close>.
\<close>

datatype HuffmanTree = Leaf AlphaCode nat | Node HuffmanTree HuffmanTree

fun code :: "HuffmanTree \<Rightarrow> AlphaCode" where
  "code (Leaf c w) = c"
| "code (Node l r) = 0"

fun weight :: "HuffmanTree \<Rightarrow> nat" where
  "weight (Leaf c w) = w"
| "weight (Node l r) = weight l + weight r"

fun depth :: "HuffmanTree \<Rightarrow> nat" where
  "depth (Leaf c w) = 0"
| "depth (Node l r) = 1 + (if depth l > depth r then depth l else depth r)"

fun leaves :: "HuffmanTree \<Rightarrow> (AlphaCode \<times> nat) list" where
  "leaves (Leaf c w) = [(c, w)]"
| "leaves (Node l r) = leaves l @ leaves r"

text \<open>\<open>CompareHuffmanTreeWeights::operator()\<close>: the ordering of the priority queue.\<close>

definition CompareHuffmanTreeWeights :: "HuffmanTree \<Rightarrow> HuffmanTree \<Rightarrow> bool" where
  "CompareHuffmanTreeWeights a b =
     (if weight a \<noteq> weight b then weight a > weight b else code a < code b)"

text \<open>
  \<open>std::priority_queue<HuffmanTree *, std::vector<HuffmanTree *>,
  CompareHuffmanTreeWeights>\<close>: a vector kept as a binary heap.  \<open>emplace\<close> is
  \<open>emplace_back\<close> followed by \<open>std::push_heap\<close>, \<open>pop\<close> is \<open>std::pop_heap\<close> followed
  by \<open>pop_back\<close>, and \<open>top\<close> is the front of the vector.  The language fixes no order
  among elements that the comparison cannot tell apart (two internal nodes of equal
  weight, say): which of them reaches the top is decided by the heap algorithms.  The
  model follows those of the GNU C++ library (\<^verbatim>\<open>bits/stl_heap.h\<close>), which is where the
  shape of the tree comes from on such inputs.
\<close>

text \<open>
  \<open>std::__push_heap(first, holeIndex, topIndex, value, comp)\<close>: the hole climbs while
  its parent compares below the value.
\<close>

function push_heap_loop ::
  "HuffmanTree list \<Rightarrow> nat \<Rightarrow> nat \<Rightarrow> HuffmanTree \<Rightarrow> HuffmanTree list" where
  "push_heap_loop first holeIndex topIndex v =
     (let parent = (holeIndex - 1) div 2
      in if holeIndex > topIndex \<and> CompareHuffmanTreeWeights (first ! parent) v
         then push_heap_loop (first[holeIndex := first ! parent]) parent topIndex v
         else first[holeIndex := v])"
  by pat_completeness auto
termination
  by (relation "measure (\<lambda>(first, holeIndex, topIndex, v). holeIndex)") auto

declare push_heap_loop.simps [simp del]

text \<open>
  The loop of \<open>std::__adjust_heap(first, holeIndex, len, value, comp)\<close>: the hole sinks
  to the larger child until it has no second child.  It returns the vector with the
  final \<open>holeIndex\<close> and \<open>secondChild\<close>.
\<close>

function adjust_heap_loop ::
  "HuffmanTree list \<Rightarrow> nat \<Rightarrow> nat \<Rightarrow> nat \<Rightarrow> HuffmanTree list \<times> nat \<times> nat" where
  "adjust_heap_loop first len holeIndex secondChild =
     (if secondChild < (len - 1) div 2 then
        (let secondChild = 2 * (secondChild + 1);
             secondChild =
               (if CompareHuffmanTreeWeights (first ! secondChild) (first ! (secondChild - 1))
                then secondChild - 1 else secondChild)
         in adjust_heap_loop (first[holeIndex := first ! secondChild]) len secondChild secondChild)
      else (first, holeIndex, secondChild))"
  by pat_completeness auto
termination
  by (relation "measure (\<lambda>(first, len, holeIndex, secondChild). len - secondChild)") auto

declare adjust_heap_loop.simps [simp del]

text \<open>
  \<open>std::__adjust_heap\<close>: after the loop a lone first child is moved up when \<open>len\<close> is
  even, then the value is pushed from the hole.  The library computes the indices on
  signed integers; the only call below has \<open>len \<ge> 1\<close>, where that agrees with the
  arithmetic on \<open>nat\<close>.
\<close>

definition adjust_heap ::
  "HuffmanTree list \<Rightarrow> nat \<Rightarrow> nat \<Rightarrow> HuffmanTree \<Rightarrow> HuffmanTree list" where
  "adjust_heap first holeIndex len v =
     (let topIndex = holeIndex;
          (first, holeIndex, secondChild) = adjust_heap_loop first len holeIndex holeIndex
      in if len mod 2 = 0 \<and> secondChild = (len - 2) div 2 then
           (let secondChild = 2 * (secondChild + 1)
            in push_heap_loop (first[holeIndex := first ! (secondChild - 1)])
                 (secondChild - 1) topIndex v)
         else push_heap_loop first holeIndex topIndex v)"

text \<open>\<open>std::push_heap(first, last, comp)\<close>: the last element is the value pushed.\<close>

definition push_heap :: "HuffmanTree list \<Rightarrow> HuffmanTree list" where
  "push_heap c = push_heap_loop c (length c - 1) 0 (c ! (length c - 1))"

text \<open>
  \<open>std::pop_heap(first, last, comp)\<close>: with more than one element, the top goes to
  the last place and the element that was there is sifted down from the root.
\<close>

definition pop_heap :: "HuffmanTree list \<Rightarrow> HuffmanTree list" where
  "pop_heap c =
     (if length c > 1 then
        (let last = length c - 1;
             v = c ! last
         in adjust_heap (c[last := c ! 0]) 0 last v)
      else c)"

text \<open>\<open>priority_queue::top\<close>, \<open>pop\<close> and \<open>emplace\<close>.\<close>

fun heap_top :: "HuffmanTree list \<Rightarrow> HuffmanTree option" where
  "heap_top [] = None"
| "heap_top (x # xs) = Some x"

definition heap_pop :: "HuffmanTree list \<Rightarrow> HuffmanTree list" where
  "heap_pop c = butlast (pop_heap c)"

definition heap_emplace :: "HuffmanTree \<Rightarrow> HuffmanTree list \<Rightarrow> HuffmanTree list" where
  "heap_emplace node c = push_heap (c @ [node])"


text \<open>
  First loop of \<open>buildHuffmanTree\<close>, over the entries of the frequency map in key
  order: a code seen once goes to the literal weight, any other gets a leaf.
\<close>

fun collect_leaves ::
  "(AlphaCode \<times> nat) list \<Rightarrow> nat \<Rightarrow> HuffmanTree list \<Rightarrow> nat \<times> HuffmanTree list" where
  "collect_leaves [] literal_weight heap = (literal_weight, heap)"
| "collect_leaves (x # xs) literal_weight heap =
     (if snd x = 1 then collect_leaves xs (literal_weight + 1) heap
      else collect_leaves xs literal_weight (heap_emplace (Leaf (fst x) (snd x)) heap))"

text \<open>\<open>while (heap.size() > limit)\<close>: cull the lightest nodes into the literal weight.\<close>

function cull_loop :: "nat \<Rightarrow> nat \<Rightarrow> HuffmanTree list \<Rightarrow> nat \<times> HuffmanTree list" where
  "cull_loop limit literal_weight heap =
     (if length heap > limit then
        (case heap_top heap of
           None \<Rightarrow> (literal_weight, heap)
         | Some node \<Rightarrow> cull_loop limit (literal_weight + weight node) (heap_pop heap))
      else (literal_weight, heap))"
  by pat_completeness auto
termination
proof (relation "measure (\<lambda>(limit, literal_weight, heap). length heap)")
  show "wf (measure (\<lambda>(limit, literal_weight, heap). length heap))" by simp
next
  have len_push: "length (push_heap_loop h i t v) = length h" for h i t v
  proof (induction h i t v rule: push_heap_loop.induct)
    case (1 first holeIndex topIndex v)
    show ?case
      using "1.IH" [OF refl] by (subst push_heap_loop.simps) (simp add: Let_def)
  qed
  have len_loop: "length (fst (adjust_heap_loop h n i s)) = length h" for h n i s
  proof (induction h n i s rule: adjust_heap_loop.induct)
    case (1 first len holeIndex secondChild)
    show ?case
      using "1.IH" [OF _ refl refl]
      by (subst adjust_heap_loop.simps) (auto simp add: Let_def split: if_splits)
  qed
  have len_adjust: "length (adjust_heap h i n v) = length h" for h i n v
    using len_loop [of h n i i]
    by (auto simp add: adjust_heap_def Let_def len_push split: prod.splits)
  have length_heap_pop: "length (heap_pop h) < length h" if "h \<noteq> []" for h
    using that by (simp add: heap_pop_def pop_heap_def Let_def len_adjust)
  fix limit literal_weight :: nat and heap :: "HuffmanTree list" and x2
  assume "limit < length heap" and "heap_top heap = Some x2"
  then have "heap \<noteq> []" by auto
  then show "((limit, literal_weight + weight x2, heap_pop heap), (limit, literal_weight, heap))
      \<in> measure (\<lambda>(limit, literal_weight, heap). length heap)"
    by (simp add: length_heap_pop)
qed

declare cull_loop.simps [simp del]

text \<open>\<open>while (heap.size() > 1)\<close>: join the two top nodes until one is left.\<close>

function merge_loop :: "HuffmanTree list \<Rightarrow> HuffmanTree list" where
  "merge_loop heap =
     (if length heap > 1 then
        (case heap_top heap of
           None \<Rightarrow> heap
         | Some left \<Rightarrow>
             (let heap1 = heap_pop heap
              in case heap_top heap1 of
                   None \<Rightarrow> heap1
                 | Some right \<Rightarrow>
                     merge_loop (heap_emplace (Node left right) (heap_pop heap1))))
      else heap)"
  by pat_completeness auto
termination
proof (relation "measure length")
  show "wf (measure length)" by simp
next
  have len_push: "length (push_heap_loop h i t v) = length h" for h i t v
  proof (induction h i t v rule: push_heap_loop.induct)
    case (1 first holeIndex topIndex v)
    show ?case
      using "1.IH" [OF refl] by (subst push_heap_loop.simps) (simp add: Let_def)
  qed
  have len_loop: "length (fst (adjust_heap_loop h n i s)) = length h" for h n i s
  proof (induction h n i s rule: adjust_heap_loop.induct)
    case (1 first len holeIndex secondChild)
    show ?case
      using "1.IH" [OF _ refl refl]
      by (subst adjust_heap_loop.simps) (auto simp add: Let_def split: if_splits)
  qed
  have len_adjust: "length (adjust_heap h i n v) = length h" for h i n v
    using len_loop [of h n i i]
    by (auto simp add: adjust_heap_def Let_def len_push split: prod.splits)
  have length_heap_pop: "length (heap_pop h) < length h" if "h \<noteq> []" for h
    using that by (simp add: heap_pop_def pop_heap_def Let_def len_adjust)
  fix heap :: "HuffmanTree list" and x2 x x2a
  assume a: "1 < length heap" and x: "x = heap_pop heap" and t: "heap_top x = Some x2a"
  from a have "heap \<noteq> []" by auto
  then have 1: "length x < length heap" unfolding x by (rule length_heap_pop)
  from t have "x \<noteq> []" by auto
  then have 2: "length (heap_pop x) < length x" by (rule length_heap_pop)
  from 1 2 show "(heap_emplace (Node x2 x2a) (heap_pop x), heap) \<in> measure length"
    by (simp add: heap_emplace_def push_heap_def len_push)
qed

declare merge_loop.simps [simp del]

text \<open>
  \<open>buildHuffmanTree\<close> (the definition in \<^verbatim>\<open>huffman.cpp\<close>, with three parameters).
  The final \<open>heap.top()\<close> on an empty queue is undefined in the source; the model
  returns \<open>None\<close> there.
\<close>

definition buildHuffmanTree ::
  "(AlphaCode \<times> nat) list \<Rightarrow> nat \<Rightarrow> AlphaCode \<Rightarrow> HuffmanTree option" where
  "buildHuffmanTree frequencyMap limit literal =
    (let (literal_weight, heap) = collect_leaves frequencyMap 0 [];
         (literal_weight, heap) = cull_loop limit literal_weight heap;
         heap = (if literal_weight > 0 then heap_emplace (Leaf literal literal_weight) heap
                 else heap);
         heap = merge_loop heap
     in heap_top heap)"

section \<open>Span compressor\<close>

text \<open>
  \<open>AlphaChar\<close> is the index of a code in the alphabet, \<open>Span\<close> the struct of
  \<^verbatim>\<open>suffixTree.h\<close>.  Positions and counts are \<open>size_t\<close>, modelled as \<open>nat\<close>.
\<close>

type_synonym AlphaChar = nat

record Span =
  span_subsong :: int
  span_channel :: int
  span_start :: nat
  span_length :: nat

text \<open>
  \<open>AssertFailed\<close> is a failed \<open>assert\<close>, \<open>KeyMissing\<close> the exception of
  \<open>std::map::at\<close>.  \<open>OutOfRange\<close> stands for an unchecked \<open>operator[]\<close> past the end
  of a vector, which the language leaves undefined.
\<close>

datatype tz_error = AssertFailed | KeyMissing | OutOfRange

text \<open>\<open>for (auto code : codeSequence) alphaSequence.emplace_back(index.at(code));\<close>\<close>

fun to_alphaSequence :: "(AlphaCode \<rightharpoonup> AlphaChar) \<Rightarrow> AlphaCode list \<Rightarrow> tz_error + AlphaChar list" where
  "to_alphaSequence index [] = Inr []"
| "to_alphaSequence index (c # cs) =
     (case index c of
        None \<Rightarrow> Inl KeyMissing
      | Some a \<Rightarrow> (case to_alphaSequence index cs of
                    Inl e \<Rightarrow> Inl e
                  | Inr as \<Rightarrow> Inr (a # as)))"

text \<open>
  \<open>std::map<size_t, size_t>\<close> as an association list in ascending key order, which
  is the order its iteration follows.  \<open>bump k m\<close> is \<open>m[k]++\<close>: a missing key is
  inserted with 0 first.
\<close>

type_synonym BranchTable = "(nat \<times> nat) list"

fun bump :: "nat \<Rightarrow> BranchTable \<Rightarrow> BranchTable" where
  "bump k [] = [(k, 1)]"
| "bump k (x # xs) =
     (if k = fst x then (fst x, snd x + 1) # xs
      else if k < fst x then (k, 1) # x # xs
      else x # bump k xs)"

text \<open>
  The inner loop of a back-reference,
  \<open>for (size_t j = nextSpan.start; j < nextSpanEnd; j++, i++)\<close>: it copies the
  copy map of the prior span and counts the branch taken into each position.
\<close>

function copy_span ::
  "nat \<Rightarrow> nat \<Rightarrow> nat \<Rightarrow> nat list \<Rightarrow> BranchTable list
    \<Rightarrow> tz_error + (nat \<times> nat list \<times> BranchTable list)" where
  "copy_span j nextSpanEnd i copyMap branchFrequencyMap =
     (if j < nextSpanEnd then
        (if \<not> j < length copyMap \<or> \<not> i < length copyMap then Inl OutOfRange
         else
           let nextCodeAddr = copyMap ! j;
               copyMap = copyMap[i := nextCodeAddr]
           in if i > 0 then
                (let lastCodeAddr = copyMap ! (i - 1)
                 in if \<not> lastCodeAddr < length branchFrequencyMap then Inl OutOfRange
                    else copy_span (j + 1) nextSpanEnd (i + 1) copyMap
                           (branchFrequencyMap
                              [lastCodeAddr := bump nextCodeAddr (branchFrequencyMap ! lastCodeAddr)]))
              else copy_span (j + 1) nextSpanEnd (i + 1) copyMap branchFrequencyMap)
      else Inr (i, copyMap, branchFrequencyMap))"
  by pat_completeness auto
termination
  by (relation "measure (\<lambda>(j, nextSpanEnd, i, copyMap, branchFrequencyMap). nextSpanEnd - j)") auto

declare copy_span.simps [simp del]

text \<open>
  The state of the greedy parse.  \<open>find_prior\<close> is the query
  \<open>root->find_prior(i, alphaSequence, nextSpan)\<close> of the suffix tree; the suffix tree
  is not part of these sources, so the query is a parameter: it receives the
  position, the sequence and the span object it overwrites, and returns that span.
\<close>

record parse_state =
  p_i :: nat
  p_copyMap :: "nat list"
  p_branchFrequencyMap :: "BranchTable list"
  p_spans :: "Span list"
  p_currentSpan :: Span
  p_nextSpan :: Span

type_synonym prior_query = "nat \<Rightarrow> AlphaChar list \<Rightarrow> Span \<Rightarrow> Span"

text \<open>One iteration of \<open>for (size_t i = 0; i < alphaSequence.size(); )\<close>.\<close>

definition parse_iteration ::
  "prior_query \<Rightarrow> AlphaChar list \<Rightarrow> parse_state \<Rightarrow> tz_error + parse_state" where
  "parse_iteration find_prior alphaSequence st =
    (let i = p_i st;
         nextSpan = find_prior i alphaSequence (p_nextSpan st)
     in if span_length nextSpan > 3 then
          (let spans = (if span_length (p_currentSpan st) > 0
                        then p_spans st @ [p_currentSpan st] else p_spans st);
               spans = spans @ [nextSpan];
               nextSpanEnd = span_start nextSpan + span_length nextSpan
           in case copy_span (span_start nextSpan) nextSpanEnd i (p_copyMap st)
                     (p_branchFrequencyMap st) of
                Inl e \<Rightarrow> Inl e
              | Inr (i', copyMap, branchFrequencyMap) \<Rightarrow>
                  Inr (st\<lparr>p_i := i', p_copyMap := copyMap,
                          p_branchFrequencyMap := branchFrequencyMap,
                          p_spans := spans,
                          p_currentSpan := (p_currentSpan st)\<lparr>span_start := i', span_length := 0\<rparr>,
                          p_nextSpan := nextSpan\<rparr>))
        else
          (if i > 0 \<and> \<not> i - 1 < length (p_copyMap st) then Inl OutOfRange
           else if i > 0 \<and> \<not> p_copyMap st ! (i - 1) < length (p_branchFrequencyMap st)
             then Inl OutOfRange
           else if \<not> i < length (p_copyMap st) then Inl OutOfRange
           else
             let branchFrequencyMap =
                   (if i > 0 then
                      (let lastCodeAddr = p_copyMap st ! (i - 1)
                       in (p_branchFrequencyMap st)
                            [lastCodeAddr := bump i (p_branchFrequencyMap st ! lastCodeAddr)])
                    else p_branchFrequencyMap st)
             in Inr (st\<lparr>p_i := i + 1, p_copyMap := (p_copyMap st)[i := i],
                        p_branchFrequencyMap := branchFrequencyMap,
                        p_currentSpan := (p_currentSpan st)
                           \<lparr>span_length := span_length (p_currentSpan st) + 1\<rparr>,
                        p_nextSpan := nextSpan\<rparr>)))"

text \<open>
  The loop runs while \<open>i < alphaSequence.size()\<close>.  Every iteration that succeeds
  moves \<open>i\<close> forward (by one, or by a span longer than 3), which is its measure.
\<close>

function greedy_parse ::
  "prior_query \<Rightarrow> AlphaChar list \<Rightarrow> parse_state \<Rightarrow> tz_error + parse_state" where
  "greedy_parse find_prior alphaSequence st =
     (if p_i st < length alphaSequence then
        (case parse_iteration find_prior alphaSequence st of
           Inl e \<Rightarrow> Inl e
         | Inr st' \<Rightarrow> greedy_parse find_prior alphaSequence st')
      else Inr st)"
  by pat_completeness auto
termination
proof (relation "measure (\<lambda>(find_prior, alphaSequence, st). length alphaSequence - p_i st)")
  show "wf (measure (\<lambda>(find_prior, alphaSequence, st). length alphaSequence - p_i st))"
    by simp
next
  fix find_prior :: prior_query and alphaSequence :: "AlphaChar list" and st st' :: parse_state
  assume lt: "p_i st < length alphaSequence"
    and it: "parse_iteration find_prior alphaSequence st = Inr st'"
  have copied: "i' = i + (e - j)"
    if "copy_span j e i cm b = Inr (i', cm', b')" for j e i cm b i' cm' b'
    using that
  proof (induction j e i cm b rule: copy_span.induct)
    case (1 j nextSpanEnd i copyMap branchFrequencyMap)
    show ?case
    proof (cases "j < nextSpanEnd")
      case False
      with "1.prems" show ?thesis by (simp add: copy_span.simps)
    next
      case True
      from "1.prems" True have ok: "j < length copyMap" "i < length copyMap"
        by (subst (asm) copy_span.simps, simp split: if_splits)+
      show ?thesis
      proof (cases "i > 0")
        case pos: True
        from "1.prems" True ok pos
        have inb: "copyMap[i := copyMap ! j] ! (i - 1) < length branchFrequencyMap"
          by (subst (asm) copy_span.simps) (simp add: Let_def split: if_splits)
        from "1.prems" True ok pos inb
        have "copy_span (j + 1) nextSpanEnd (i + 1) (copyMap[i := copyMap ! j])
                (branchFrequencyMap[copyMap[i := copyMap ! j] ! (i - 1) :=
                   bump (copyMap ! j) (branchFrequencyMap ! (copyMap[i := copyMap ! j] ! (i - 1)))])
              = Inr (i', cm', b')"
          by (subst (asm) copy_span.simps) (simp add: Let_def)
        from "1.IH"(1) [OF True _ refl refl pos refl _ this] ok inb True
        show ?thesis by simp
      next
        case zero: False
        from "1.prems" True ok zero
        have "copy_span (j + 1) nextSpanEnd (i + 1) (copyMap[i := copyMap ! j]) branchFrequencyMap
              = Inr (i', cm', b')"
          by (subst (asm) copy_span.simps) (simp add: Let_def)
        from "1.IH"(2) [OF True _ refl refl zero this] ok True
        show ?thesis by simp
      qed
    qed
  qed
  have "p_i st < p_i st'"
  proof (cases "span_length (find_prior (p_i st) alphaSequence (p_nextSpan st)) > 3")
    case True
    with it obtain i' cm' b' where
      c: "copy_span (span_start (find_prior (p_i st) alphaSequence (p_nextSpan st)))
            (span_start (find_prior (p_i st) alphaSequence (p_nextSpan st))
              + span_length (find_prior (p_i st) alphaSequence (p_nextSpan st)))
            (p_i st) (p_copyMap st) (p_branchFrequencyMap st) = Inr (i', cm', b')"
      and i': "p_i st' = i'"
      by (auto simp add: parse_iteration_def Let_def split: sum.splits)
    from copied [OF c] True i' show ?thesis by simp
  next
    case False
    with it show ?thesis
      by (auto simp add: parse_iteration_def Let_def split: if_splits)
  qed
  with lt show "((find_prior, alphaSequence, st'), (find_prior, alphaSequence, st))
      \<in> measure (\<lambda>(find_prior, alphaSequence, st). length alphaSequence - p_i st)"
    by simp
qed

declare greedy_parse.simps [simp del]

text \<open>
  The state before the loop: \<open>copyMap.resize\<close> and \<open>branchFrequencyMap.resize\<close>
  value-initialise their elements, and both spans start as \<open>(subsong, channel, 0, 0)\<close>.
\<close>

definition parse_init :: "int \<Rightarrow> int \<Rightarrow> nat \<Rightarrow> parse_state" where
  "parse_init subsong channel n =
     \<lparr>p_i = 0, p_copyMap = replicate n 0, p_branchFrequencyMap = replicate n [],
      p_spans = [],
      p_currentSpan = \<lparr>span_subsong = subsong, span_channel = channel,
                        span_start = 0, span_length = 0\<rparr>,
      p_nextSpan = \<lparr>span_subsong = subsong, span_channel = channel,
                     span_start = 0, span_length = 0\<rparr>\<rparr>"

text \<open>After the loop a pending literal span is committed.\<close>

definition final_spans :: "parse_state \<Rightarrow> Span list" where
  "final_spans st =
     (if span_length (p_currentSpan st) > 0 then p_spans st @ [p_currentSpan st]
      else p_spans st)"

text \<open>
  The runs of the parse loop, as a step relation.  The second component records the
  positions that went through the literal branch (\<open>currentSpan.length++\<close>); it is
  bookkeeping for the statements below and not part of the program state.
\<close>

inductive parse_run ::
  "prior_query \<Rightarrow> AlphaChar list \<Rightarrow> int \<Rightarrow> int \<Rightarrow> parse_state \<Rightarrow> nat set \<Rightarrow> bool"
  for find_prior alphaSequence subsong channel where
  start: "parse_run find_prior alphaSequence subsong channel
            (parse_init subsong channel (length alphaSequence)) {}"
| literal:
    "parse_run find_prior alphaSequence subsong channel st lits \<Longrightarrow>
     p_i st < length alphaSequence \<Longrightarrow>
     \<not> span_length (find_prior (p_i st) alphaSequence (p_nextSpan st)) > 3 \<Longrightarrow>
     parse_iteration find_prior alphaSequence st = Inr st' \<Longrightarrow>
     parse_run find_prior alphaSequence subsong channel st' (insert (p_i st) lits)"
| back_reference:
    "parse_run find_prior alphaSequence subsong channel st lits \<Longrightarrow>
     p_i st < length alphaSequence \<Longrightarrow>
     span_length (find_prior (p_i st) alphaSequence (p_nextSpan st)) > 3 \<Longrightarrow>
     parse_iteration find_prior alphaSequence st = Inr st' \<Longrightarrow>
     parse_run find_prior alphaSequence subsong channel st' lits"

text \<open>
  What the compressor relies on from \<open>find_prior\<close>: a span it reports with more than
  three codes starts before \<open>i\<close>, fits in the sequence when laid at \<open>i\<close>, and repeats
  the codes found there.  (That it is the longest such span is not needed.)
\<close>

definition prior_sound :: "prior_query \<Rightarrow> AlphaChar list \<Rightarrow> bool" where
  "prior_sound find_prior alphaSequence \<longleftrightarrow>
     (\<forall>i nextSpan.
        i < length alphaSequence \<longrightarrow>
        (let r = find_prior i alphaSequence nextSpan
         in span_length r > 3 \<longrightarrow>
              span_start r < i \<and> i + span_length r \<le> length alphaSequence
              \<and> (\<forall>k < span_length r. alphaSequence ! (span_start r + k) = alphaSequence ! (i + k))))"

text \<open>
  Modelled from the spec: \<open>SuffixTree::find_prior\<close> is declared in \<^verbatim>\<open>suffixTree.h\<close>,
  which is not among the sources.  The specification gives its contract: the longest
  prefix of \<open>seq[i..]\<close> that also begins at some \<open>j < i\<close>, with length 0 when there
  is none.  Among equally long candidates the contract names none; this model takes
  the leftmost.
\<close>

fun common_prefix_length :: "AlphaChar list \<Rightarrow> AlphaChar list \<Rightarrow> nat" where
  "common_prefix_length (x # xs) (y # ys) =
     (if x = y then Suc (common_prefix_length xs ys) else 0)"
| "common_prefix_length xs ys = 0"

fun longest_prior :: "AlphaChar list \<Rightarrow> nat \<Rightarrow> nat \<Rightarrow> nat \<times> nat \<Rightarrow> nat \<times> nat" where
  "longest_prior seq i 0 best = best"
| "longest_prior seq i (Suc j) best =
     (let best' = longest_prior seq i j best;
          l = common_prefix_length (drop j seq) (drop i seq)
      in if l > snd best' then (j, l) else best')"

definition find_prior_longest :: prior_query where
  "find_prior_longest i seq nextSpan =
     (let (j, l) = longest_prior seq i i (0, 0)
      in nextSpan\<lparr>span_start := j, span_length := l\<rparr>)"

section \<open>Skip map\<close>

text \<open>
  The scan \<open>for (auto &x: branchFrequencies)\<close> of one branch table: it keeps the first
  key other than \<open>nextIndex\<close> whose count beats every earlier one.
\<close>

fun skip_scan :: "nat \<Rightarrow> BranchTable \<Rightarrow> nat \<Rightarrow> nat \<Rightarrow> nat" where
  "skip_scan nextIndex [] maxFreq skipIndex = skipIndex"
| "skip_scan nextIndex (x # xs) maxFreq skipIndex =
     (if fst x \<noteq> nextIndex \<and> snd x > maxFreq then skip_scan nextIndex xs (snd x) (fst x)
      else skip_scan nextIndex xs maxFreq skipIndex)"

text \<open>
  \<open>skipIndex\<close> starts as \<open>copyMap[i + 1]\<close>.  For the last position that index is one
  past the end of the vector: the source reads whatever lies there, and the model
  takes that value as the parameter \<open>past_end\<close>.
\<close>

definition build_skipMap :: "nat \<Rightarrow> nat list \<Rightarrow> BranchTable list \<Rightarrow> nat list" where
  "build_skipMap past_end copyMap branchFrequencyMap =
     map (\<lambda>i. skip_scan (i + 1) (branchFrequencyMap ! i) 0
                 (if i + 1 < length copyMap then copyMap ! (i + 1) else past_end))
         [0..<length branchFrequencyMap]"

section \<open>Invariant of the greedy parse\<close>

text \<open>
  What holds of the copy map and the branch tables when the first \<open>i\<close> positions
  have been parsed: every entry of the copy map points at or before its position;
  on the parsed part it is idempotent and points at an equal code; and the table of
  \<open>a\<close> holds, in ascending order and with positive counts, exactly the copy-map
  values of the positions that follow a position mapped to \<open>a\<close>.
\<close>

definition map_inv :: "AlphaChar list \<Rightarrow> nat \<Rightarrow> nat list \<Rightarrow> BranchTable list \<Rightarrow> bool" where
  "map_inv alphaSequence i copyMap branchFrequencyMap \<longleftrightarrow>
     i \<le> length alphaSequence
     \<and> length copyMap = length alphaSequence
     \<and> length branchFrequencyMap = length alphaSequence
     \<and> (\<forall>p < length alphaSequence. copyMap ! p \<le> p)
     \<and> (\<forall>p < i. copyMap ! (copyMap ! p) = copyMap ! p
                 \<and> alphaSequence ! (copyMap ! p) = alphaSequence ! p)
     \<and> (\<forall>a < length alphaSequence.
           sorted (map fst (branchFrequencyMap ! a))
           \<and> distinct (map fst (branchFrequencyMap ! a))
           \<and> (\<forall>x \<in> set (branchFrequencyMap ! a). snd x > 0)
           \<and> fst ` set (branchFrequencyMap ! a)
               = {copyMap ! Suc p | p. Suc p < i \<and> copyMap ! p = a})"

section \<open>Control-flow rewriter\<close>

text \<open>What the rewriter reads: the input codes and the tables left by the parse.\<close>

record rewrite_env =
  e_subsong :: int
  e_channel :: int
  e_codeSequence :: "AlphaCode list"
  e_copyMap :: "nat list"
  e_branchFrequencyMap :: "BranchTable list"
  e_skipMap :: "nat list"

text \<open>What it writes: the two output streams, the label of every literal position, and its counters.\<close>

record rewrite_state =
  r_compressedCodeSequence :: "AlphaCode list"
  r_spanSequence :: "AlphaCode list"
  r_labels :: "nat list"
  r_end :: nat
  r_lastJumpAddress :: nat
  r_totalGoto :: nat

text \<open>
  The body of \<open>for (size_t i = span.start; i < spanEnd; i++)\<close>.  The flag in the
  result is \<open>True\<close> when the body leaves the loop through \<open>break\<close>.
\<close>

definition rewrite_position ::
  "rewrite_env \<Rightarrow> bool \<Rightarrow> nat \<Rightarrow> rewrite_state \<Rightarrow> tz_error + (bool \<times> rewrite_state)" where
  "rewrite_position env repeatSpan i st =
    (if \<not> r_end st < length (e_copyMap env) then Inl OutOfRange
     else
       let leftmostCodeAddr = e_copyMap env ! r_end st
       in if \<not> repeatSpan \<and> (\<not> i < length (e_codeSequence env) \<or> \<not> i < length (r_labels st))
          then Inl OutOfRange
          else if \<not> repeatSpan \<and> e_codeSequence env ! i = CODE_STOP then
            Inr (True,
                 st\<lparr>r_labels := (r_labels st)[i := length (r_compressedCodeSequence st)],
                    r_compressedCodeSequence := r_compressedCodeSequence st @ [CODE_BRANCH_POINT],
                    r_spanSequence := r_spanSequence st @ [CODE_STOP]\<rparr>)
          else
            let st = (if \<not> repeatSpan then
                        st\<lparr>r_labels := (r_labels st)[i := length (r_compressedCodeSequence st)],
                           r_compressedCodeSequence :=
                             r_compressedCodeSequence st @ [e_codeSequence env ! i]\<rparr>
                      else st);
                st = st\<lparr>r_end := r_end st + 1\<rparr>
            in if \<not> r_end st < length (e_copyMap env) then Inl AssertFailed
               else
                 let nextCodeAddress = e_copyMap env ! r_end st
                 in if \<not> leftmostCodeAddr < length (e_branchFrequencyMap env) then Inl OutOfRange
                    else
                      let branchTable = e_branchFrequencyMap env ! leftmostCodeAddr
                      in if nextCodeAddress = leftmostCodeAddr + 1 \<and> length branchTable < 2
                         then Inr (False, st)
                         else if \<not> leftmostCodeAddr < length (e_skipMap env) then Inl OutOfRange
                         else
                           let st = st\<lparr>r_lastJumpAddress := nextCodeAddress\<rparr>;
                               skipCodeAddress = e_skipMap env ! leftmostCodeAddr;
                               st = (if length branchTable < 2
                                     then st\<lparr>r_totalGoto := r_totalGoto st + 1\<rparr> else st);
                               st = (if \<not> repeatSpan then
                                       st\<lparr>r_compressedCodeSequence :=
                                            r_compressedCodeSequence st
                                            @ [if length branchTable < 2 then CODE_TAKE_DATA_JUMP
                                               else CODE_BRANCH_POINT,
                                               CODE_JUMP (e_subsong env) (e_channel env)
                                                 skipCodeAddress]\<rparr>
                                     else st);
                               st = (if length branchTable > 1 then
                                       (if nextCodeAddress = skipCodeAddress then
                                          st\<lparr>r_spanSequence :=
                                               r_spanSequence st @ [CODE_TAKE_DATA_JUMP]\<rparr>
                                        else if nextCodeAddress = leftmostCodeAddr + 1 then
                                          st\<lparr>r_spanSequence := r_spanSequence st @ [CODE_SKIP]\<rparr>
                                        else
                                          st\<lparr>r_spanSequence :=
                                               r_spanSequence st
                                               @ [CODE_TAKE_TRACK_JUMP,
                                                  CODE_JUMP (e_subsong env) (e_channel env)
                                                    nextCodeAddress]\<rparr>)
                                     else st)
                           in Inr (False, st))"

function rewrite_span_loop ::
  "rewrite_env \<Rightarrow> bool \<Rightarrow> nat \<Rightarrow> nat \<Rightarrow> rewrite_state \<Rightarrow> tz_error + rewrite_state" where
  "rewrite_span_loop env repeatSpan i spanEnd st =
     (if i < spanEnd then
        (case rewrite_position env repeatSpan i st of
           Inl e \<Rightarrow> Inl e
         | Inr r \<Rightarrow> if fst r then Inr (snd r)
                    else rewrite_span_loop env repeatSpan (i + 1) spanEnd (snd r))
      else Inr st)"
  by pat_completeness auto
termination
  by (relation "measure (\<lambda>(env, repeatSpan, i, spanEnd, st). spanEnd - i)") auto

declare rewrite_span_loop.simps [simp del]

text \<open>\<open>for (auto &span: spans)\<close>, with \<open>repeatSpan = end > span.start\<close>.\<close>

fun rewrite_spans :: "rewrite_env \<Rightarrow> Span list \<Rightarrow> rewrite_state \<Rightarrow> tz_error + rewrite_state" where
  "rewrite_spans env [] st = Inr st"
| "rewrite_spans env (span # spans) st =
     (let spanEnd = span_start span + span_length span;
          repeatSpan = r_end st > span_start span
      in case rewrite_span_loop env repeatSpan (span_start span) spanEnd st of
           Inl e \<Rightarrow> Inl e
         | Inr st' \<Rightarrow> rewrite_spans env spans st')"

text \<open>
  The pass that replaces the position held by every \<open>JUMP\<close> with its label.  In
  the span stream a \<open>WRITE_DELTA\<close> fails an assertion.
\<close>

fun relabel_data :: "int \<Rightarrow> int \<Rightarrow> nat list \<Rightarrow> AlphaCode list \<Rightarrow> tz_error + AlphaCode list" where
  "relabel_data subsong channel labels [] = Inr []"
| "relabel_data subsong channel labels (c # cs) =
     (if GET_CODE_TYPE c = code_type_tag JUMP
         \<and> \<not> GET_CODE_JUMP_ADDRESS c < length labels then Inl OutOfRange
      else
        case relabel_data subsong channel labels cs of
          Inl e \<Rightarrow> Inl e
        | Inr cs' \<Rightarrow>
            Inr ((if GET_CODE_TYPE c = code_type_tag JUMP
                  then CODE_JUMP subsong channel (labels ! GET_CODE_JUMP_ADDRESS c)
                  else c) # cs'))"

fun relabel_span :: "int \<Rightarrow> int \<Rightarrow> nat list \<Rightarrow> AlphaCode list \<Rightarrow> tz_error + AlphaCode list" where
  "relabel_span subsong channel labels [] = Inr []"
| "relabel_span subsong channel labels (c # cs) =
     (if GET_CODE_TYPE c = code_type_tag JUMP
         \<and> \<not> GET_CODE_JUMP_ADDRESS c < length labels then Inl OutOfRange
      else if GET_CODE_TYPE c \<noteq> code_type_tag JUMP
         \<and> GET_CODE_TYPE c = code_type_tag WRITE_DELTA then Inl AssertFailed
      else
        case relabel_span subsong channel labels cs of
          Inl e \<Rightarrow> Inl e
        | Inr cs' \<Rightarrow>
            Inr ((if GET_CODE_TYPE c = code_type_tag JUMP
                  then CODE_JUMP subsong channel (labels ! GET_CODE_JUMP_ADDRESS c)
                  else c) # cs'))"

section \<open>Return rewriting\<close>

text \<open>
  The last loop of \<open>compressCodeSequence\<close> replays the two streams and rewrites a
  \<open>TAKE_TRACK_JUMP\<close> whose target is the last return address, or the high-water
  mark, into \<open>RETURN_LAST\<close> or \<open>RETURN_FF\<close>.  It is a \<open>while (true)\<close> loop: the
  model is a partial function, \<open>None\<close> when the loop does not end.
\<close>

record fixup_state =
  f_maxOffset :: nat
  f_returnAddress :: nat
  f_nextReadAddress :: nat
  f_nextSpanAddress :: nat
  f_spanSequence :: "AlphaCode list"

partial_function (option) fixup_loop ::
  "AlphaCode list \<Rightarrow> fixup_state \<Rightarrow> (tz_error + AlphaCode list) option" where
  "fixup_loop compressedCodeSequence st =
    (if \<not> f_nextReadAddress st < length compressedCodeSequence then Some (Inl AssertFailed)
     else
       let c = compressedCodeSequence ! f_nextReadAddress st;
           st = st\<lparr>f_nextReadAddress := f_nextReadAddress st + 1\<rparr>
       in if c = CODE_TAKE_DATA_JUMP then
            (if \<not> f_nextReadAddress st < length compressedCodeSequence then Some (Inl OutOfRange)
             else
               let c = compressedCodeSequence ! f_nextReadAddress st;
                   st = st\<lparr>f_nextReadAddress := f_nextReadAddress st + 1\<rparr>;
                   jumpAddress = GET_CODE_JUMP_ADDRESS c;
                   st = st\<lparr>f_returnAddress := f_nextReadAddress st\<rparr>;
                   st = (if f_returnAddress st \<ge> f_maxOffset st
                         then st\<lparr>f_maxOffset := f_returnAddress st\<rparr> else st);
                   st = st\<lparr>f_nextReadAddress := jumpAddress\<rparr>
               in fixup_loop compressedCodeSequence st)
          else if c \<noteq> CODE_BRANCH_POINT then fixup_loop compressedCodeSequence st
          else if \<not> f_nextSpanAddress st < length (f_spanSequence st) then Some (Inl AssertFailed)
          else
            let s = f_spanSequence st ! f_nextSpanAddress st;
                st = st\<lparr>f_nextSpanAddress := f_nextSpanAddress st + 1\<rparr>
            in if s = CODE_STOP then Some (Inr (f_spanSequence st))
               else if s = CODE_SKIP then
                 fixup_loop compressedCodeSequence
                   (st\<lparr>f_nextReadAddress := f_nextReadAddress st + 1\<rparr>)
               else if s = CODE_TAKE_DATA_JUMP then
                 (if \<not> f_nextReadAddress st < length compressedCodeSequence
                  then Some (Inl OutOfRange)
                  else
                    let c = compressedCodeSequence ! f_nextReadAddress st;
                        st = st\<lparr>f_nextReadAddress := f_nextReadAddress st + 1\<rparr>;
                        jumpAddress = GET_CODE_JUMP_ADDRESS c;
                        st = st\<lparr>f_returnAddress := f_nextReadAddress st\<rparr>;
                        st = (if f_returnAddress st \<ge> f_maxOffset st
                              then st\<lparr>f_maxOffset := f_returnAddress st\<rparr> else st);
                        st = st\<lparr>f_nextReadAddress := jumpAddress\<rparr>
                    in fixup_loop compressedCodeSequence st)
               else if s = CODE_RETURN_FF then
                 fixup_loop compressedCodeSequence
                   (st\<lparr>f_nextReadAddress := f_maxOffset st,
                       f_nextSpanAddress := f_nextSpanAddress st + 1\<rparr>)
               else if s = CODE_RETURN_LAST then
                 fixup_loop compressedCodeSequence
                   (st\<lparr>f_nextReadAddress := f_returnAddress st,
                       f_nextSpanAddress := f_nextSpanAddress st + 1\<rparr>)
               else if s = CODE_TAKE_TRACK_JUMP then
                 (if \<not> f_nextSpanAddress st < length (f_spanSequence st)
                  then Some (Inl OutOfRange)
                  else
                    let s = f_spanSequence st ! f_nextSpanAddress st
                    in if GET_CODE_TYPE s \<noteq> code_type_tag JUMP then Some (Inl AssertFailed)
                       else
                         let jumpAddress = GET_CODE_JUMP_ADDRESS s;
                             st = (if jumpAddress = f_returnAddress st then
                                     st\<lparr>f_spanSequence :=
                                          (f_spanSequence st)
                                            [f_nextSpanAddress st - 1 := CODE_RETURN_LAST,
                                             f_nextSpanAddress st := CODE_RETURN_NOOP]\<rparr>
                                   else if jumpAddress = f_maxOffset st then
                                     st\<lparr>f_spanSequence :=
                                          (f_spanSequence st)
                                            [f_nextSpanAddress st - 1 := CODE_RETURN_FF,
                                             f_nextSpanAddress st := CODE_RETURN_NOOP]\<rparr>
                                   else
                                     (let st = st\<lparr>f_returnAddress := f_nextReadAddress st + 1\<rparr>
                                      in if f_returnAddress st \<ge> f_maxOffset st
                                         then st\<lparr>f_maxOffset := f_returnAddress st\<rparr> else st))
                         in fixup_loop compressedCodeSequence
                              (st\<lparr>f_nextReadAddress := jumpAddress,
                                  f_nextSpanAddress := f_nextSpanAddress st + 1\<rparr>))
               else Some (Inl AssertFailed))"

declare fixup_loop.simps [code]

section \<open>compressCodeSequence\<close>

text \<open>
  The whole function.  \<open>alphabet\<close> only feeds the suffix tree and is left out with
  it.  The result is the pair \<open>(compressedCodeSequence, spanSequence)\<close>.
\<close>

definition compressCodeSequence ::
  "prior_query \<Rightarrow> nat \<Rightarrow> int \<Rightarrow> int \<Rightarrow> (AlphaCode \<rightharpoonup> AlphaChar) \<Rightarrow> AlphaCode list
    \<Rightarrow> (tz_error + AlphaCode list \<times> AlphaCode list) option" where
  "compressCodeSequence find_prior past_end subsong channel index codeSequence =
    (case to_alphaSequence index codeSequence of
       Inl e \<Rightarrow> Some (Inl e)
     | Inr alphaSequence \<Rightarrow>
        (case greedy_parse find_prior alphaSequence
                (parse_init subsong channel (length alphaSequence)) of
           Inl e \<Rightarrow> Some (Inl e)
         | Inr parsed \<Rightarrow>
            (let copyMap = p_copyMap parsed;
                 branchFrequencyMap = p_branchFrequencyMap parsed;
                 spans = final_spans parsed;
                 skipMap = build_skipMap past_end copyMap branchFrequencyMap;
                 env = \<lparr>e_subsong = subsong, e_channel = channel,
                         e_codeSequence = codeSequence, e_copyMap = copyMap,
                         e_branchFrequencyMap = branchFrequencyMap, e_skipMap = skipMap\<rparr>
             in case rewrite_spans env spans
                       \<lparr>r_compressedCodeSequence = [], r_spanSequence = [],
                        r_labels = replicate (length alphaSequence) 0, r_end = 0,
                        r_lastJumpAddress = 0, r_totalGoto = 0\<rparr> of
                  Inl e \<Rightarrow> Some (Inl e)
                | Inr rw \<Rightarrow>
                   (case relabel_data subsong channel (r_labels rw)
                           (r_compressedCodeSequence rw) of
                      Inl e \<Rightarrow> Some (Inl e)
                    | Inr compressedCodeSequence \<Rightarrow>
                       (case relabel_span subsong channel (r_labels rw) (r_spanSequence rw) of
                          Inl e \<Rightarrow> Some (Inl e)
                        | Inr spanSequence \<Rightarrow>
                           (case fixup_loop compressedCodeSequence
                                   \<lparr>f_maxOffset = 0, f_returnAddress = 0,
                                    f_nextReadAddress = 0, f_nextSpanAddress = 0,
                                    f_spanSequence = spanSequence\<rparr> of
                              None \<Rightarrow> None
                            | Some (Inl e) \<Rightarrow> Some (Inl e)
                            | Some (Inr spanSequence') \<Rightarrow>
                                Some (Inr (compressedCodeSequence, spanSequence'))))))))"

section \<open>Validator\<close>

text \<open>
  \<open>validateCodeSequence\<close>: the decoder's state machine run against the original
  codes.  The iterator \<open>it\<close> into the span stream is an index.  The result is the
  final \<open>compareAddress\<close>, after the closing assertion that it equals the length of
  the original sequence.
\<close>

record validate_state =
  v_it :: nat
  v_nextReadAddress :: nat
  v_compareAddress :: nat
  v_maxOffset :: nat
  v_returnAddress :: nat

partial_function (option) validate_loop ::
  "AlphaCode list \<Rightarrow> AlphaCode list \<Rightarrow> AlphaCode list \<Rightarrow> validate_state
    \<Rightarrow> (tz_error + nat) option" where
  "validate_loop codeSequence compressedCodeSequence spanSequence st =
    (if \<not> v_nextReadAddress st < length compressedCodeSequence then Some (Inl OutOfRange)
     else
       let c = compressedCodeSequence ! v_nextReadAddress st
       in if c = CODE_TAKE_DATA_JUMP then
            (let st = st\<lparr>v_nextReadAddress := v_nextReadAddress st + 1\<rparr>
             in if \<not> v_nextReadAddress st < length compressedCodeSequence
                then Some (Inl OutOfRange)
                else
                  let c = compressedCodeSequence ! v_nextReadAddress st;
                      jumpAddress = GET_CODE_JUMP_ADDRESS c
                  in if code_type_tag JUMP \<noteq> GET_CODE_TYPE c then Some (Inl AssertFailed)
                     else
                       let st = st\<lparr>v_returnAddress := v_nextReadAddress st + 1\<rparr>;
                           st = (if v_returnAddress st \<ge> v_maxOffset st
                                 then st\<lparr>v_maxOffset := v_returnAddress st\<rparr> else st)
                       in validate_loop codeSequence compressedCodeSequence spanSequence
                            (st\<lparr>v_nextReadAddress := jumpAddress\<rparr>))
          else if GET_CODE_TYPE c = code_type_tag BRANCH_POINT then
            (let st = st\<lparr>v_nextReadAddress := v_nextReadAddress st + 1\<rparr>
             in if \<not> v_it st \<noteq> length spanSequence then Some (Inl AssertFailed)
                else if \<not> v_it st < length spanSequence then Some (Inl OutOfRange)
                else
                  let s = spanSequence ! v_it st;
                      st = st\<lparr>v_it := v_it st + 1\<rparr>
                  in if s = CODE_STOP then
                       (if \<not> v_compareAddress st < length codeSequence then Some (Inl OutOfRange)
                        else if codeSequence ! v_compareAddress st \<noteq> CODE_STOP
                          then Some (Inl AssertFailed)
                        else if \<not> v_it st = length spanSequence then Some (Inl AssertFailed)
                        else if \<not> v_compareAddress st + 1 = length codeSequence
                          then Some (Inl AssertFailed)
                        else Some (Inr (v_compareAddress st + 1)))
                     else if s = CODE_SKIP then
                       validate_loop codeSequence compressedCodeSequence spanSequence
                         (st\<lparr>v_nextReadAddress := v_nextReadAddress st + 1\<rparr>)
                     else if s = CODE_TAKE_DATA_JUMP then
                       (if \<not> v_nextReadAddress st < length compressedCodeSequence
                        then Some (Inl OutOfRange)
                        else
                          let c = compressedCodeSequence ! v_nextReadAddress st;
                              jumpAddress = GET_CODE_JUMP_ADDRESS c
                          in if code_type_tag JUMP \<noteq> GET_CODE_TYPE c
                             then Some (Inl AssertFailed)
                             else
                               let st = st\<lparr>v_returnAddress := v_nextReadAddress st + 1\<rparr>;
                                   st = (if v_returnAddress st \<ge> v_maxOffset st
                                         then st\<lparr>v_maxOffset := v_returnAddress st\<rparr> else st)
                               in validate_loop codeSequence compressedCodeSequence spanSequence
                                    (st\<lparr>v_nextReadAddress := jumpAddress\<rparr>))
                     else if s = CODE_RETURN_FF then
                       validate_loop codeSequence compressedCodeSequence spanSequence
                         (st\<lparr>v_nextReadAddress := v_maxOffset st, v_it := v_it st + 1\<rparr>)
                     else if s = CODE_RETURN_LAST then
                       validate_loop codeSequence compressedCodeSequence spanSequence
                         (st\<lparr>v_nextReadAddress := v_returnAddress st, v_it := v_it st + 1\<rparr>)
                     else if s = CODE_TAKE_TRACK_JUMP then
                       (if \<not> v_it st < length spanSequence then Some (Inl OutOfRange)
                        else
                          let s = spanSequence ! v_it st;
                              st = st\<lparr>v_it := v_it st + 1\<rparr>;
                              jumpAddress = GET_CODE_JUMP_ADDRESS s;
                              st = st\<lparr>v_returnAddress := v_nextReadAddress st + 1\<rparr>;
                              st = (if v_returnAddress st \<ge> v_maxOffset st
                                    then st\<lparr>v_maxOffset := v_returnAddress st\<rparr> else st)
                          in validate_loop codeSequence compressedCodeSequence spanSequence
                               (st\<lparr>v_nextReadAddress := jumpAddress\<rparr>))
                     else Some (Inl AssertFailed))
          else
            (if \<not> v_compareAddress st < length codeSequence then Some (Inl OutOfRange)
             else if c \<noteq> codeSequence ! v_compareAddress st then Some (Inl AssertFailed)
             else validate_loop codeSequence compressedCodeSequence spanSequence
                    (st\<lparr>v_nextReadAddress := v_nextReadAddress st + 1,
                        v_compareAddress := v_compareAddress st + 1\<rparr>)))"

declare validate_loop.simps [code]

definition validateCodeSequence ::
  "AlphaCode list \<Rightarrow> AlphaCode list \<Rightarrow> AlphaCode list \<Rightarrow> (tz_error + nat) option" where
  "validateCodeSequence codeSequence compressedCodeSequence spanSequence =
     validate_loop codeSequence compressedCodeSequence spanSequence
       \<lparr>v_it = 0, v_nextReadAddress = 0, v_compareAddress = 0,
        v_maxOffset = 0, v_returnAddress = 0\<rparr>"

section \<open>What the rewriter writes, position by position\<close>

text \<open>
  Bookkeeping for the statements about \<open>rewrite_spans\<close>; none of it is program state.
  A position is literal when the copy map sends it to itself.  \<open>span_walk copyMap e
  spans\<close> says how the span list lies over the positions from \<open>e\<close> on: every span is
  non-empty, a span that starts at \<open>e\<close> covers literal positions only, and a span that
  starts before \<open>e\<close> covers copied positions only.
\<close>

fun span_walk :: "nat list \<Rightarrow> nat \<Rightarrow> Span list \<Rightarrow> bool" where
  "span_walk copyMap e [] = True"
| "span_walk copyMap e (span # spans) =
     (span_length span > 0
      \<and> (if span_start span < e
          then (\<forall>p \<in> set [e..<e + span_length span]. copyMap ! p \<noteq> p)
          else span_start span = e
               \<and> (\<forall>p \<in> set [e..<e + span_length span]. copyMap ! p = p))
      \<and> span_walk copyMap (e + span_length span) spans)"

text \<open>
  The codes that the iteration of the inner loop with \<open>end = e\<close> appends to the data
  stream, and those it appends to the span stream, read off the loop body: only a
  literal position writes data; the branch table, the skip target and the decision
  belong to \<open>leftmostCodeAddr = copyMap[e]\<close>.
\<close>

definition rewriter_data_at :: "rewrite_env \<Rightarrow> nat \<Rightarrow> AlphaCode list" where
  "rewriter_data_at env e =
     (if e_copyMap env ! e \<noteq> e then []
      else if e_codeSequence env ! e = CODE_STOP then [CODE_BRANCH_POINT]
      else
        e_codeSequence env ! e #
          (let branchTable = e_branchFrequencyMap env ! e
           in if e_copyMap env ! (e + 1) = e + 1 \<and> length branchTable < 2 then []
              else [if length branchTable < 2 then CODE_TAKE_DATA_JUMP else CODE_BRANCH_POINT,
                    CODE_JUMP (e_subsong env) (e_channel env) (e_skipMap env ! e)]))"

definition rewriter_span_at :: "rewrite_env \<Rightarrow> nat \<Rightarrow> AlphaCode list" where
  "rewriter_span_at env e =
     (let leftmostCodeAddr = e_copyMap env ! e
      in if leftmostCodeAddr = e \<and> e_codeSequence env ! e = CODE_STOP then [CODE_STOP]
         else
           let nextCodeAddress = e_copyMap env ! (e + 1);
               branchTable = e_branchFrequencyMap env ! leftmostCodeAddr;
               skipCodeAddress = e_skipMap env ! leftmostCodeAddr
           in if length branchTable > 1 then
                (if nextCodeAddress = skipCodeAddress then [CODE_TAKE_DATA_JUMP]
                 else if nextCodeAddress = leftmostCodeAddr + 1 then [CODE_SKIP]
                 else [CODE_TAKE_TRACK_JUMP,
                       CODE_JUMP (e_subsong env) (e_channel env) nextCodeAddress])
              else [])"

text \<open>
  The state of the rewriter once the positions below \<open>e\<close> have been processed: both
  streams are the concatenation of what those positions wrote, and the label of every
  literal position is the length the data stream had when the position was reached.
\<close>

definition rewriter_inv :: "rewrite_env \<Rightarrow> nat \<Rightarrow> rewrite_state \<Rightarrow> bool" where
  "rewriter_inv env e st \<longleftrightarrow>
     length (r_labels st) = length (e_copyMap env)
     \<and> r_compressedCodeSequence st = concat (map (rewriter_data_at env) [0..<e])
     \<and> r_spanSequence st = concat (map (rewriter_span_at env) [0..<e])
     \<and> (\<forall>p < e. e_copyMap env ! p = p \<longrightarrow>
            r_labels st ! p = length (concat (map (rewriter_data_at env) [0..<p])))"

section \<open>Properties of the code emitter\<close>

lemma sustain_run_step: "16 < r \<Longrightarrow> sustain_run r = CODE_SUSTAIN 16 # sustain_run (r - 16)"
proof -
  assume "16 < r"
  then have "r div 16 = Suc ((r - 16) div 16)" "r mod 16 = (r - 16) mod 16"
    by (simp_all add: le_div_geq le_mod_geq)
  then show ?thesis by (simp add: sustain_run_def)
qed

lemma sustain_run_last: "0 < r \<Longrightarrow> r \<le> 16 \<Longrightarrow> sustain_run r = [CODE_SUSTAIN (of_nat r)]"
proof (cases "r = 16")
  case True
  then show ?thesis by (simp add: sustain_run_def)
next
  case False
  assume "0 < r" "r \<le> 16"
  with False have "r div 16 = 0" "r mod 16 = r" by simp_all
  then show ?thesis using \<open>0 < r\<close> by (simp add: sustain_run_def)
qed

lemma sustain_run_0: "sustain_run 0 = []"
  by (simp add: sustain_run_def)

lemma sustain_loop_done:
  "\<not> framecount > 0 \<Longrightarrow> sustain_loop framecount n out = (n, out)"
  by (subst sustain_loop.simps) simp

lemma sustain_loop_full:
  "framecount > 16 \<Longrightarrow>
     sustain_loop framecount n out =
     sustain_loop (framecount - 16) (n + 1) (out @ [CODE_SUSTAIN 16])"
  by (subst sustain_loop.simps) simp

lemma sustain_loop_rest:
  "framecount > 0 \<Longrightarrow> \<not> framecount > 16 \<Longrightarrow>
     sustain_loop framecount n out = (n + 1, out @ [CODE_SUSTAIN (word_of_int framecount)])"
  by (subst sustain_loop.simps) (simp add: sustain_loop_done)

lemma sustain_loop_nat:
  "sustain_loop (int r) n out = (n + length (sustain_run r), out @ sustain_run r)"
proof (induction r arbitrary: n out rule: less_induct)
  case (less r)
  consider "r = 0" | "0 < r" "r \<le> 16" | "16 < r" by linarith
  then show ?case
  proof cases
    case 1
    then show ?thesis by (simp add: sustain_loop_done sustain_run_0)
  next
    case 2
    then have "sustain_loop (int r) n out = (n + 1, out @ [CODE_SUSTAIN (of_nat r)])"
      by (simp add: sustain_loop_rest)
    with 2 show ?thesis by (simp add: sustain_run_last)
  next
    case 3
    then have eq: "int r - 16 = int (r - 16)" by simp
    from 3 have "sustain_loop (int r) n out =
        sustain_loop (int r - 16) (n + 1) (out @ [CODE_SUSTAIN 16])"
      by (simp add: sustain_loop_full)
    also have "\<dots> = sustain_loop (int (r - 16)) (n + 1) (out @ [CODE_SUSTAIN 16])"
      by (simp only: eq)
    also have "\<dots> = (n + 1 + length (sustain_run (r - 16)),
                       (out @ [CODE_SUSTAIN 16]) @ sustain_run (r - 16))"
      using 3 by (intro less.IH) simp
    also have "\<dots> = (n + length (sustain_run r), out @ sustain_run r)"
      using 3 by (simp add: sustain_run_step)
    finally show ?thesis .
  qed
qed

lemma sustain_loop_run:
  "sustain_loop framecount n out =
     (n + length (sustain_run (nat framecount)), out @ sustain_run (nat framecount))"
proof (cases "framecount > 0")
  case True
  then have "framecount = int (nat framecount)" by simp
  then show ?thesis using sustain_loop_nat [of "nat framecount" n out] by (simp only:)
next
  case False
  then have "nat framecount = 0" by simp
  with False show ?thesis by (simp add: sustain_loop_done sustain_run_0)
qed


lemma type_PAUSE: "GET_CODE_TYPE (CODE_PAUSE d) = 2"
  unfolding GET_CODE_TYPE_def CODE_PAUSE_def
  by (rule bit_word_eqI) (auto simp add: bit_simps dest: bit_imp_le_length)

lemma type_SUSTAIN: "GET_CODE_TYPE (CODE_SUSTAIN d) = 3"
  unfolding GET_CODE_TYPE_def CODE_SUSTAIN_def
  by (rule bit_word_eqI) (auto simp add: bit_simps dest: bit_imp_le_length)

lemma type_WRITE_DELTA: "GET_CODE_TYPE (CODE_WRITE_DELTA cc cx fc fx vc vx d) = 1"
  unfolding GET_CODE_TYPE_def CODE_WRITE_DELTA_def
  by (cases cc; cases fc; cases vc; rule bit_word_eqI)
     (auto simp add: bit_simps dest: bit_imp_le_length)

lemma mask_ff: "(0xff :: 64 word) = mask 8"
  by (simp add: mask_eq_exp_minus_1)

lemma low_byte_of_tagged: "ucast ((push_bit 56 (t :: 64 word) OR ucast (d :: 8 word)) AND mask 8) = d"
  by (rule bit_word_eqI) (auto simp add: bit_simps dest: bit_imp_le_length)

lemma dur_SUSTAIN: "GET_CODE_WRITE_DURATION (CODE_SUSTAIN d) = d"
  unfolding GET_CODE_WRITE_DURATION_def CODE_SUSTAIN_def mask_ff
  by (rule low_byte_of_tagged)

lemma sustain_run_props:
  assumes "s \<in> set (sustain_run r)"
  shows "GET_CODE_TYPE s = code_type_tag SUSTAIN"
    and "1 \<le> unat (GET_CODE_WRITE_DURATION s)"
    and "unat (GET_CODE_WRITE_DURATION s) \<le> 16"
proof -
  from assms consider "s = CODE_SUSTAIN 16" | "r mod 16 \<noteq> 0" "s = CODE_SUSTAIN (of_nat (r mod 16))"
    by (auto simp add: sustain_run_def split: if_splits)
  then have "GET_CODE_TYPE s = code_type_tag SUSTAIN \<and>
     1 \<le> unat (GET_CODE_WRITE_DURATION s) \<and> unat (GET_CODE_WRITE_DURATION s) \<le> 16"
  proof cases
    case 1
    then show ?thesis by (simp add: type_SUSTAIN dur_SUSTAIN)
  next
    case 2
    have "unat (of_nat (r mod 16) :: 8 word) = r mod 16"
      by (simp add: unat_of_nat)
    with 2 show ?thesis by (simp add: type_SUSTAIN dur_SUSTAIN)
  qed
  then show "GET_CODE_TYPE s = code_type_tag SUSTAIN"
    and "1 \<le> unat (GET_CODE_WRITE_DURATION s)"
    and "unat (GET_CODE_WRITE_DURATION s) \<le> 16" by simp_all
qed


text \<open>
  Claim C6.  Every \<open>PAUSE\<close> code that \<open>encodeChannelStateCodes\<close> appends belongs
  to an interval whose target volume register is zero: no \<open>PAUSE\<close> is emitted for a
  nonzero target volume.
\<close>

theorem pause_only_for_zero_volume:
  assumes "c \<in> set (drop (length out) (snd (encodeChannelStateCodes cs nxt d lastst out)))"
    and "GET_CODE_TYPE c = code_type_tag PAUSE"
  shows "audv nxt = 0"
  using assms
  by (auto simp add: encodeChannelStateCodes_def Let_def sustain_loop_run
      type_WRITE_DELTA type_SUSTAIN type_PAUSE
      split: if_splits dest: sustain_run_props(1))


lemma replicate_two: "replicate 2 x = [x, x]"
  by (simp add: numeral_2_eq_2)

text \<open>
  Claim C3 as stated fails: when the previous volume is 1 and the target volume is 0,
  the decrement sentinel \<open>0xf0\<close> replaces the volume before the test for zero, and
  a \<open>WRITE_DELTA\<close> is emitted instead of a \<open>PAUSE\<close>.
\<close>

theorem pause_skipped_on_decrement_to_zero:
  "encodeChannelStateCodes True \<lparr>audc = 4, audf = 10, audv = 0\<rparr> 1
       \<lparr>audc = 4, audf = 10, audv = 1\<rparr> []
     = (1, [CODE_WRITE_DELTA NOOP 0 NOOP 0 CHANGE 0xf0 1])
   \<and> CODE_WRITE_DELTA NOOP 0 NOOP 0 CHANGE 0xf0 1 \<noteq> CODE_PAUSE 1"
  by (simp add: encodeChannelStateCodes_def Let_def char_to_int_def sustain_loop_done
      CODE_WRITE_DELTA_def CODE_PAUSE_def)

text \<open>
  Claim C3, amended.  For every interval whose target volume register is 0 and whose
  previous volume register is not 1, \<open>encodeChannelStateCodes\<close> emits \<open>PAUSE\<close> of
  duration 1 as the leading opcode, followed only by \<open>SUSTAIN\<close> codes for the
  residual.
\<close>

theorem pause_leads_when_volume_zero:
  assumes "audv nxt = 0" and "audv lastst \<noteq> 1"
  shows "(let r = nat ((if char_to_int cs d > 0 then char_to_int cs d else 1) - 1)
          in encodeChannelStateCodes cs nxt d lastst out
               = (1 + length (sustain_run r), out @ CODE_PAUSE 1 # sustain_run r)
             \<and> (\<forall>s \<in> set (sustain_run r). GET_CODE_TYPE s = code_type_tag SUSTAIN))"
proof -
  have "uint (audv lastst) \<noteq> 1"
    using assms(2) by (metis uint_1_eq word_uint_eq_iff)
  moreover have "uint (audv lastst) + 1 \<noteq> 0"
    using uint_ge_0 [of "audv lastst"] by linarith
  ultimately show ?thesis using assms(1)
    by (auto simp add: encodeChannelStateCodes_def Let_def sustain_loop_run
        dest: sustain_run_props(1))
qed

theorem pause_leads_when_volume_zero_witness:
  "audv \<lparr>audc = 4, audf = 10, audv = 0\<rparr> = 0 \<and> audv \<lparr>audc = 4, audf = 10, audv = 5\<rparr> \<noteq> 1
   \<and> encodeChannelStateCodes True \<lparr>audc = 4, audf = 10, audv = 0\<rparr> 40
         \<lparr>audc = 4, audf = 10, audv = 5\<rparr> []
       = (4, [CODE_PAUSE 1, CODE_SUSTAIN 16, CODE_SUSTAIN 16, CODE_SUSTAIN 7])"
  using pause_leads_when_volume_zero
    [of "\<lparr>audc = 4, audf = 10, audv = 0\<rparr>" "\<lparr>audc = 4, audf = 10, audv = 5\<rparr>" True 40 "[]"]
  by (simp add: char_to_int_def sustain_run_def replicate_two)

theorem pause_only_for_zero_volume_witness:
  "CODE_PAUSE 1 \<in> set (drop (length ([] :: AlphaCode list))
       (snd (encodeChannelStateCodes True \<lparr>audc = 4, audf = 10, audv = 0\<rparr> 40
              \<lparr>audc = 4, audf = 10, audv = 5\<rparr> [])))
   \<and> GET_CODE_TYPE (CODE_PAUSE 1) = code_type_tag PAUSE
   \<and> audv \<lparr>audc = 4, audf = 10, audv = 0\<rparr> = 0"
proof -
  have e: "encodeChannelStateCodes True \<lparr>audc = 4, audf = 10, audv = 0\<rparr> 40
         \<lparr>audc = 4, audf = 10, audv = 5\<rparr> []
       = (4, [CODE_PAUSE 1, CODE_SUSTAIN 16, CODE_SUSTAIN 16, CODE_SUSTAIN 7])"
    by (simp add: encodeChannelStateCodes_def Let_def char_to_int_def sustain_loop_run sustain_run_def
        replicate_two)
  have m: "CODE_PAUSE 1 \<in> set (drop (length ([] :: AlphaCode list))
       (snd (encodeChannelStateCodes True \<lparr>audc = 4, audf = 10, audv = 0\<rparr> 40
              \<lparr>audc = 4, audf = 10, audv = 5\<rparr> [])))"
    by (simp add: e)
  have t: "GET_CODE_TYPE (CODE_PAUSE 1) = code_type_tag PAUSE"
    by (simp add: type_PAUSE)
  from pause_only_for_zero_volume [OF m t] m t show ?thesis by simp
qed




section \<open>Properties of the bitstream\<close>

lemma low_bit_test: "(ucast (b :: 8 word) AND (1 :: 32 word)) \<noteq> 0 \<longleftrightarrow> bit b 0"
proof -
  have "ucast b AND (1 :: 32 word) = of_bool (bit b 0)"
    by (rule bit_word_eqI) (auto simp add: bit_simps bit_0)
  then show ?thesis by simp
qed

lemma low_bit_and_1: "bit (b AND 1 :: 8 word) 0 = bit b 0"
  by (simp add: bit_and_iff bit_1_iff del: bit_0)

lemma writeByte_loop_step:
  "0 < m \<Longrightarrow> writeByte_loop b m bs =
     (case writeBit (bit b 0) bs of Inl e \<Rightarrow> Inl e | Inr bs' \<Rightarrow> writeByte_loop b (drop_bit 1 m) bs')"
  by (subst writeByte_loop.simps) (simp add: low_bit_test del: bit_0)

lemma writeByte_loop_stop: "writeByte_loop b 0 bs = Inr bs"
  by (subst writeByte_loop.simps) simp

lemma writeByte_loop_low_bit: "writeByte_loop b m bs = writeByte_loop (b AND 1) m bs"
proof (induction b m bs rule: writeByte_loop.induct)
  case (1 byte msk bs)
  show ?case
  proof (cases "0 < msk")
    case True
    have "bit (byte AND 1) 0 = bit byte 0" by (rule low_bit_and_1)
    moreover have "((ucast byte AND (if msk > 0 then 1 else 0 :: 32 word)) \<noteq> 0) = bit byte 0"
      using True by (simp add: low_bit_test del: bit_0)
    ultimately show ?thesis
      using True "1.IH"
      by (simp add: writeByte_loop_step [OF True] del: bit_0 split: sum.split)
  next
    case False
    then have "msk = 0" by (simp add: word_greater_zero_iff)
    then show ?thesis by (simp add: writeByte_loop_stop)
  qed
qed

lemma mask_31: "(2147483647 :: 64 word) = mask 31"
  by (simp add: mask_eq_exp_minus_1)

lemma bit_shl_int_1:
  "s < 32 \<Longrightarrow> shl_int_1 s = Some m \<Longrightarrow> bit m n \<longleftrightarrow> (n = s \<or> (s = 31 \<and> 31 \<le> n \<and> n < 64))"
  by (auto simp add: shl_int_1_def bit_simps min_def mask_31 split: if_splits)

lemma writeBit_effect:
  assumes "pos bs < capacity bs" and "pos bs mod 64 < 32" and "pos bs div 64 < length (buffer bs)"
  shows "\<exists>bs'. writeBit v bs = Inr bs' \<and> pos bs' = pos bs + 1 \<and> capacity bs' = capacity bs
           \<and> length (buffer bs') = length (buffer bs)
           \<and> stream_bit bs' (pos bs) = v
           \<and> (\<forall>p < pos bs. stream_bit bs' p = stream_bit bs p)"
proof -
  obtain m where m: "shl_int_1 (pos bs mod 64) = Some m"
    using assms(2) by (simp add: shl_int_1_def)
  note bm = bit_shl_int_1 [OF assms(2) m]
  let ?a = "pos bs div 64"
  let ?w = "buffer bs ! ?a"
  let ?bs' = "bs\<lparr>buffer := (buffer bs)[?a := (if v then ?w OR m else ?w AND NOT m)], pos := pos bs + 1,
                 endPos := (if pos bs + 1 > endPos bs then pos bs + 1 else endPos bs)\<rparr>"
  have w: "writeBit v bs = Inr ?bs'"
    using assms m by (simp add: writeBit_def Let_def drop_bit_eq_div)
  have here: "stream_bit ?bs' (pos bs) = v"
    using assms(3) by (simp add: stream_bit_def bit_simps bm)
  have before: "stream_bit ?bs' p = stream_bit bs p" if "p < pos bs" for p
  proof (cases "p div 64 = ?a")
    case True
    with that have "p mod 64 < pos bs mod 64"
      by (metis div_mult_mod_eq nat_add_left_cancel_less)
    then have "\<not> bit m (p mod 64)" using assms(2) by (auto simp add: bm)
    with True assms(3) show ?thesis by (simp add: stream_bit_def bit_simps)
  next
    case False
    then show ?thesis by (simp add: stream_bit_def)
  qed
  from w here before show ?thesis by auto
qed


lemma writeByte_loop_ok:
  assumes "j < 8" and "pos bs + Suc j \<le> capacity bs" and "pos bs mod 64 + Suc j \<le> 32"
    and "pos bs div 64 < length (buffer bs)"
  shows "\<exists>bs'. writeByte_loop b (push_bit j 1) bs = Inr bs' \<and> pos bs' = pos bs + Suc j
           \<and> (\<forall>k < Suc j. stream_bit bs' (pos bs + k) = bit b 0)
           \<and> (\<forall>p < pos bs. stream_bit bs' p = stream_bit bs p)"
  using assms
proof (induction j arbitrary: bs)
  case 0
  from writeBit_effect [of bs "bit b 0"] 0
  obtain bs1 where "writeBit (bit b 0) bs = Inr bs1" "pos bs1 = pos bs + 1"
    "stream_bit bs1 (pos bs) = bit b 0" "\<forall>p < pos bs. stream_bit bs1 p = stream_bit bs p"
    by auto
  then show ?case
    by (simp add: writeByte_loop_step writeByte_loop_stop del: bit_0)
next
  case (Suc j)
  from writeBit_effect [of bs "bit b 0"] Suc.prems
  obtain bs1 where w: "writeBit (bit b 0) bs = Inr bs1" and p1: "pos bs1 = pos bs + 1"
    and c1: "capacity bs1 = capacity bs" and l1: "length (buffer bs1) = length (buffer bs)"
    and h1: "stream_bit bs1 (pos bs) = bit b 0" and b1: "\<forall>p < pos bs. stream_bit bs1 p = stream_bit bs p"
    by auto
  have same_word: "Suc (pos bs) div 64 = pos bs div 64" "Suc (pos bs) mod 64 = Suc (pos bs mod 64)"
  proof -
    have "pos bs mod 64 + 1 < 64" using Suc.prems(3) by simp
    then show "Suc (pos bs) div 64 = pos bs div 64" "Suc (pos bs) mod 64 = Suc (pos bs mod 64)"
      by (simp_all add: div_Suc mod_Suc)
  qed
  have "\<exists>bs'. writeByte_loop b (push_bit j 1) bs1 = Inr bs' \<and> pos bs' = pos bs1 + Suc j
           \<and> (\<forall>k < Suc j. stream_bit bs' (pos bs1 + k) = bit b 0)
           \<and> (\<forall>p < pos bs1. stream_bit bs' p = stream_bit bs1 p)"
    using Suc.prems by (intro Suc.IH) (simp_all add: p1 c1 l1 same_word)
  then obtain bs2 where r: "writeByte_loop b (push_bit j 1) bs1 = Inr bs2"
    and p2: "pos bs2 = pos bs1 + Suc j"
    and h2: "\<forall>k < Suc j. stream_bit bs2 (pos bs1 + k) = bit b 0"
    and b2: "\<forall>p < pos bs1. stream_bit bs2 p = stream_bit bs1 p"
    by blast
  have nz: "0 < (push_bit (Suc j) 1 :: 8 word)"
  proof -
    have "bit (push_bit (Suc j) 1 :: 8 word) (Suc j)"
      using Suc.prems(1) by (simp add: bit_simps)
    then have "(push_bit (Suc j) 1 :: 8 word) \<noteq> 0" by auto
    then show ?thesis by (simp add: word_greater_zero_iff)
  qed
  have dr: "drop_bit 1 (push_bit (Suc j) 1 :: 8 word) = push_bit j 1"
    using Suc.prems(1) by (intro bit_word_eqI) (auto simp add: bit_simps)
  have run: "writeByte_loop b (push_bit (Suc j) 1) bs = Inr bs2"
    by (simp only: writeByte_loop_step [OF nz] w dr r sum.case)
  have bits: "stream_bit bs2 (pos bs + k) = bit b 0" if "k < Suc (Suc j)" for k
  proof (cases k)
    case 0
    with b2 h1 p1 show ?thesis by simp
  next
    case (Suc k')
    with that h2 p1 show ?thesis by simp
  qed
  have keep: "stream_bit bs2 p = stream_bit bs p" if "p < pos bs" for p
    using that b1 b2 p1 by simp
  from run p2 p1 bits keep show ?case by auto
qed


text \<open>
  What \<open>writeByte\<close> does for claim C10 where it is defined.  For every byte \<open>b\<close>,
  \<open>writeByte b\<close> behaves as \<open>writeByte (b & 1)\<close>: the upper seven bits never
  influence the stream.  Wherever the eight calls of \<open>writeBit\<close> are defined (room up
  to \<open>capacity\<close>, shifts below 32), it appends eight bits equal to the
  least-significant bit of \<open>b\<close>, leaves the earlier bits alone and advances the cursor
  by 8.
\<close>

theorem writeByte_repeats_low_bit:
  "writeByte b bs = writeByte (b AND 1) bs
   \<and> (pos bs + 8 \<le> capacity bs \<and> pos bs mod 64 + 8 \<le> 32 \<and> pos bs div 64 < length (buffer bs)
        \<longrightarrow> (\<exists>bs'. writeByte b bs = Inr bs' \<and> pos bs' = pos bs + 8
               \<and> (\<forall>k < 8. stream_bit bs' (pos bs + k) = bit b 0)
               \<and> (\<forall>p < pos bs. stream_bit bs' p = stream_bit bs p)))"
proof -
  have m: "(0x80 :: 8 word) = push_bit 7 1" by simp
  have "writeByte b bs = writeByte (b AND 1) bs"
    unfolding writeByte_def by (rule writeByte_loop_low_bit)
  moreover have "\<exists>bs'. writeByte b bs = Inr bs' \<and> pos bs' = pos bs + 8
               \<and> (\<forall>k < 8. stream_bit bs' (pos bs + k) = bit b 0)
               \<and> (\<forall>p < pos bs. stream_bit bs' p = stream_bit bs p)"
    if "pos bs + 8 \<le> capacity bs" "pos bs mod 64 + 8 \<le> 32" "pos bs div 64 < length (buffer bs)"
    using writeByte_loop_ok [of 7 bs b] that unfolding writeByte_def m by simp
  ultimately show ?thesis by blast
qed

lemma scast_pow2: "p < 31 \<Longrightarrow> (scast (2 ^ p :: 32 word) :: 64 word) = 2 ^ p"
  by (rule bit_word_eqI) (auto simp add: bit_simps min_def)

theorem writeByte_repeats_low_bit_witness:
  "pos \<lparr>buffer = [0xFFFFFFFFFFFFFFFF, 0], capacity = 128, pos = 8, endPos = 8\<rparr> + 8
     \<le> capacity \<lparr>buffer = [0xFFFFFFFFFFFFFFFF, 0], capacity = 128, pos = 8, endPos = 8\<rparr>
   \<and> pos \<lparr>buffer = [0xFFFFFFFFFFFFFFFF, 0], capacity = 128, pos = 8, endPos = 8\<rparr> mod 64 + 8 \<le> 32
   \<and> pos \<lparr>buffer = [0xFFFFFFFFFFFFFFFF, 0], capacity = 128, pos = 8, endPos = 8\<rparr> div 64
       < length (buffer \<lparr>buffer = [0xFFFFFFFFFFFFFFFF, 0], capacity = 128, pos = 8, endPos = 8\<rparr>)
   \<and> writeByte 0xFE \<lparr>buffer = [0xFFFFFFFFFFFFFFFF, 0], capacity = 128, pos = 8, endPos = 8\<rparr>
     = Inr \<lparr>buffer = [0xFFFFFFFFFFFF00FF, 0], capacity = 128, pos = 16, endPos = 16\<rparr>
   \<and> writeByte 0xFE \<lparr>buffer = [0xFFFFFFFFFFFFFFFF, 0], capacity = 128, pos = 8, endPos = 8\<rparr>
     = writeByte 0x00 \<lparr>buffer = [0xFFFFFFFFFFFFFFFF, 0], capacity = 128, pos = 8, endPos = 8\<rparr>"
proof -
  let ?bs = "\<lparr>buffer = [0xFFFFFFFFFFFFFFFF, 0], capacity = 128, pos = 8, endPos = 8\<rparr>"
  have w: "writeBit False \<lparr>buffer = [x, 0], capacity = 128, pos = p, endPos = p\<rparr>
            = Inr \<lparr>buffer = [x AND NOT (push_bit p 1), 0], capacity = 128, pos = Suc p, endPos = Suc p\<rparr>"
    if "p < 31" for x p
    using that by (simp add: writeBit_def shl_int_1_def Let_def drop_bit_eq_div scast_pow2)
  have "writeByte 0xFE ?bs = Inr \<lparr>buffer = [0xFFFFFFFFFFFF00FF, 0], capacity = 128, pos = 16, endPos = 16\<rparr>"
    unfolding writeByte_def
    by (simp add: writeByte_loop_step writeByte_loop_stop w del: bit_0)
  moreover have "writeByte 0xFE ?bs = writeByte 0x00 ?bs"
    using writeByte_repeats_low_bit [of "0xFE" ?bs] by simp
  ultimately show ?thesis by simp
qed

lemma writeByte_upper_half:
  assumes "pos bs < capacity bs" and "32 \<le> pos bs mod 64"
  shows "writeByte b bs = Inl UndefinedShift"
  unfolding writeByte_def
  using assms
  by (subst writeByte_loop.simps) (simp add: writeBit_def shl_int_1_def Let_def)

text \<open>
  Claim C10 says eight bits are appended at every cursor.  With the cursor in the upper
  half of a buffer word the first \<open>writeBit\<close> evaluates \<open>1 << s\<close> with \<open>s \<ge> 32\<close>, an
  \<open>int\<close> shift without a defined result: at bit 32 of an empty one-word stream with
  room for 64 bits, \<open>writeByte(0xFF)\<close> appends nothing the language defines.
\<close>

theorem writeByte_undefined_at_bit_32:
  "writeByte 0xFF \<lparr>buffer = [0], capacity = 64, pos = 32, endPos = 32\<rparr> = Inl UndefinedShift"
  by (rule writeByte_upper_half) simp_all


text \<open>
  Claim C9 at a byte that spans two buffer words: the stream holds \<open>0x5A\<close> at bit
  60, but \<open>readByte\<close> takes the upper four bits from word 0 again instead of
  word 1 and returns \<open>0x0A\<close>.  The cursor does advance by 8.
\<close>

theorem readByte_rereads_word_at_boundary:
  "readByte \<lparr>buffer = [0xA000000000000000, 0x5], capacity = 128, pos = 60, endPos = 128\<rparr>
     = Inr (0x0A, \<lparr>buffer = [0xA000000000000000, 0x5], capacity = 128, pos = 68, endPos = 128\<rparr>)
   \<and> stream_byte \<lparr>buffer = [0xA000000000000000, 0x5], capacity = 128, pos = 60, endPos = 128\<rparr> 60
     = 0x5A"
  by (simp add: readByte_def stream_byte_def stream_bit_def Let_def drop_bit_eq_div upt_rec)

text \<open>Within one buffer word \<open>readByte\<close> does return the byte at the cursor.\<close>

lemma same_word_index:
  fixes p k :: nat
  assumes "p mod 64 + k < 64"
  shows "(p + k) div 64 = p div 64" and "(p + k) mod 64 = p mod 64 + k"
proof -
  define q s where "q = p div 64" and "s = p mod 64"
  have p: "p = 64 * q + s" by (simp add: q_def s_def)
  have sk: "s + k < 64" using assms by (simp add: s_def)
  have e: "p + k = (s + k) + q * 64" by (simp add: p)
  have "(p + k) div 64 = q" unfolding e using sk by simp
  moreover have "(p + k) mod 64 = s + k" unfolding e using sk by simp
  ultimately show "(p + k) div 64 = p div 64" and "(p + k) mod 64 = p mod 64 + k"
    by (simp_all add: q_def s_def)
qed

lemma high_byte_gone: "(ucast (push_bit 8 (w :: 64 word) AND mask 8) :: 8 word) = 0"
  by (rule bit_word_eqI) (auto simp add: bit_simps)

lemma stream_byte_within_word:
  assumes "pos bs mod 64 \<le> 56"
  shows "stream_byte bs (pos bs) = (ucast (drop_bit (pos bs mod 64) (buffer bs ! (pos bs div 64)) AND mask 8) :: 8 word)"
proof (rule bit_word_eqI)
  fix n assume "n < LENGTH(8)"
  then have n: "n < 8" by simp
  with assms have "pos bs mod 64 + n < 64" by simp
  note i = same_word_index [OF this]
  have "bit (stream_byte bs (pos bs)) n = stream_bit bs (pos bs + n)"
    using n by (simp add: stream_byte_def bit_horner_sum_bit_word_iff)
  also have "\<dots> = bit (buffer bs ! (pos bs div 64)) (pos bs mod 64 + n)"
    by (simp only: stream_bit_def i)
  also have "\<dots> = bit (ucast (drop_bit (pos bs mod 64) (buffer bs ! (pos bs div 64)) AND mask 8) :: 8 word) n"
    using n by (simp add: bit_simps)
  finally show "bit (stream_byte bs (pos bs)) n = bit (ucast (drop_bit (pos bs mod 64) (buffer bs ! (pos bs div 64)) AND mask 8) :: 8 word) n" .
qed


lemma readByte_within_word:
  assumes "pos bs mod 64 \<le> 56" and "pos bs div 64 < length (buffer bs)"
  shows "readByte bs = Inr (stream_byte bs (pos bs), bs\<lparr>pos := pos bs + 8\<rparr>)"
proof (cases "pos bs mod 64 = 56")
  case True
  have "(pos bs + 8) mod 64 = (pos bs mod 64 + 8) mod 64"
    by (simp add: mod_add_left_eq)
  with True have m: "(pos bs + 8) mod 64 = 0" by simp
  have "(pos bs + 8) div 64 = (pos bs div 64 * 64 + (pos bs mod 64 + 8)) div 64"
    by simp
  also have "\<dots> = (pos bs div 64 * 64 + 64) div 64"
    by (simp only: True)
  also have "\<dots> = Suc (pos bs div 64)" by simp
  finally have d: "(pos bs + 8) div 64 = Suc (pos bs div 64)" .
  from assms d m show ?thesis
    by (simp add: readByte_def Let_def drop_bit_eq_div mask_ff high_byte_gone stream_byte_within_word)
next
  case False
  with assms(1) have "pos bs mod 64 + 8 < 64" by simp
  from same_word_index(1) [OF this] assms show ?thesis
    by (simp add: readByte_def Let_def drop_bit_eq_div mask_ff stream_byte_within_word)
qed

section \<open>Properties of the Huffman tree construction\<close>

lemma hole_move:
  assumes "i < length h" "j < length h"
  shows "mset (h[i := h ! j, j := v]) = mset (h[i := v])"
proof (cases "i = j")
  case True
  then show ?thesis by simp
next
  case False
  let ?g = "h[i := v]"
  from assms have "mset (?g[i := ?g ! j, j := ?g ! i]) = mset ?g"
    by (intro mset_swap) simp_all
  with False assms show ?thesis by simp
qed

lemma push_heap_loop_spec:
  "holeIndex < length first \<Longrightarrow>
     length (push_heap_loop first holeIndex topIndex v) = length first
     \<and> mset (push_heap_loop first holeIndex topIndex v) = mset (first[holeIndex := v])
     \<and> (\<forall>k > holeIndex. push_heap_loop first holeIndex topIndex v ! k = first ! k)"
proof (induction first holeIndex topIndex v rule: push_heap_loop.induct)
  case (1 first holeIndex topIndex v)
  let ?parent = "(holeIndex - 1) div 2"
  show ?case
  proof (cases "holeIndex > topIndex \<and> CompareHuffmanTreeWeights (first ! ?parent) v")
    case False
    then show ?thesis by (subst (1 2 3) push_heap_loop.simps) (auto simp add: Let_def)
  next
    case True
    then have lt: "?parent < holeIndex" by auto
    with "1.prems" have pl: "?parent < length first" by simp
    let ?f = "first[holeIndex := first ! ?parent]"
    from "1.IH" [OF refl True] pl
    have ih: "length (push_heap_loop ?f ?parent topIndex v) = length first"
      "mset (push_heap_loop ?f ?parent topIndex v) = mset (?f[?parent := v])"
      "\<forall>k > ?parent. push_heap_loop ?f ?parent topIndex v ! k = ?f ! k"
      by simp_all
    have step: "push_heap_loop first holeIndex topIndex v = push_heap_loop ?f ?parent topIndex v"
      using True by (subst push_heap_loop.simps) (simp add: Let_def)
    have "mset (?f[?parent := v]) = mset (first[holeIndex := v])"
      using "1.prems" pl by (rule hole_move)
    moreover have "\<forall>k > holeIndex. push_heap_loop ?f ?parent topIndex v ! k = first ! k"
      using ih(3) lt by auto
    ultimately show ?thesis unfolding step using ih(1,2) by simp
  qed
qed

lemma adjust_heap_loop_spec:
  "adjust_heap_loop first len holeIndex secondChild = (first', hole', sc') \<Longrightarrow>
   holeIndex = secondChild \<Longrightarrow> secondChild < len \<Longrightarrow> len \<le> length first \<Longrightarrow>
     length first' = length first \<and> hole' = sc' \<and> sc' < len
     \<and> (\<forall>v. mset (first'[hole' := v]) = mset (first[holeIndex := v]))
     \<and> (\<forall>k \<ge> len. first' ! k = first ! k)"
proof (induction first len holeIndex secondChild arbitrary: first' hole' sc'
        rule: adjust_heap_loop.induct)
  case (1 first len holeIndex secondChild)
  show ?case
  proof (cases "secondChild < (len - 1) div 2")
    case False
    with "1.prems" show ?thesis by (simp add: adjust_heap_loop.simps)
  next
    case True
    let ?s2 = "2 * (secondChild + 1)"
    let ?c = "if CompareHuffmanTreeWeights (first ! ?s2) (first ! (?s2 - 1)) then ?s2 - 1 else ?s2"
    let ?f = "first[holeIndex := first ! ?c]"
    from True have s2: "?s2 < len" by simp
    then have c: "?c < len" by simp
    from "1.prems"(1) True
    have r: "adjust_heap_loop ?f len ?c ?c = (first', hole', sc')"
      by (subst (asm) adjust_heap_loop.simps) (auto simp add: Let_def split: if_splits)
    from c "1.prems"(4) have len': "len \<le> length ?f" by simp
    from "1.IH" [OF True refl refl r refl c len']
    have ih1: "length first' = length ?f" and ih2: "hole' = sc'" and ih3: "sc' < len"
      and ih5: "\<forall>v. mset (first'[hole' := v]) = mset (?f[?c := v])"
      and ih6: "\<forall>k \<ge> len. first' ! k = ?f ! k"
      by blast+
    have hl: "holeIndex < length first" using "1.prems"(2,3,4) by simp
    have cl: "?c < length first" using c "1.prems"(4) by simp
    have mv: "mset (?f[?c := v]) = mset (first[holeIndex := v])" for v
      using hl cl by (rule hole_move)
    have keep: "\<forall>k \<ge> len. first' ! k = first ! k"
    proof (intro allI impI)
      fix k assume "len \<le> k"
      with "1.prems"(2,3) have "k \<noteq> holeIndex" by simp
      with ih6 \<open>len \<le> k\<close> show "first' ! k = first ! k" by simp
    qed
    from ih1 ih2 ih3 ih5 mv keep show ?thesis by simp
  qed
qed

lemma adjust_heap_spec:
  assumes "0 < len" "len \<le> length first"
  shows "length (adjust_heap first 0 len v) = length first
         \<and> mset (adjust_heap first 0 len v) = mset (first[0 := v])
         \<and> (\<forall>k \<ge> len. adjust_heap first 0 len v ! k = first ! k)"
proof -
  obtain first' hole' sc' where r: "adjust_heap_loop first len 0 0 = (first', hole', sc')"
    by (cases "adjust_heap_loop first len 0 0") auto
  from adjust_heap_loop_spec [OF r refl assms]
  have l: "length first' = length first" and h: "hole' = sc'" and sl: "sc' < len"
    and ms: "\<forall>v. mset (first'[hole' := v]) = mset (first[0 := v])"
    and keep: "\<forall>k \<ge> len. first' ! k = first ! k"
    by blast+
  from sl assms l have hl: "hole' < length first'" using h by simp
  show ?thesis
  proof (cases "len mod 2 = 0 \<and> sc' = (len - 2) div 2")
    case False
    then have a: "adjust_heap first 0 len v = push_heap_loop first' hole' 0 v"
      by (auto simp add: adjust_heap_def r Let_def)
    from push_heap_loop_spec [OF hl, of 0 v] l ms keep sl h
    show ?thesis unfolding a by auto
  next
    case True
    with assms(1) have e: "2 * (sc' + 1) - 1 = len - 1" by presburger
    from True have "adjust_heap first 0 len v
        = push_heap_loop (first'[hole' := first' ! (2 * (sc' + 1) - 1)]) (2 * (sc' + 1) - 1) 0 v"
      by (simp add: adjust_heap_def r Let_def)
    then have a: "adjust_heap first 0 len v
        = push_heap_loop (first'[hole' := first' ! (len - 1)]) (len - 1) 0 v"
      by (simp only: e)
    let ?f = "first'[hole' := first' ! (len - 1)]"
    from assms l have ll: "len - 1 < length ?f" by simp
    from assms l have ll': "len - 1 < length first'" by simp
    from push_heap_loop_spec [OF ll, of 0 v]
    have p: "length (push_heap_loop ?f (len - 1) 0 v) = length ?f"
      "mset (push_heap_loop ?f (len - 1) 0 v) = mset (?f[len - 1 := v])"
      "\<forall>k > len - 1. push_heap_loop ?f (len - 1) 0 v ! k = ?f ! k"
      by simp_all
    have "mset (?f[len - 1 := v]) = mset (first'[hole' := v])"
      using hl ll' by (rule hole_move)
    moreover have "\<forall>k \<ge> len. push_heap_loop ?f (len - 1) 0 v ! k = first ! k"
      using p(3) keep sl h assms(1) by auto
    ultimately show ?thesis unfolding a using p(1,2) l ms by simp
  qed
qed

lemma heap_top_mem: "heap_top h = Some t \<Longrightarrow> t \<in> set h"
  by (cases h) auto

lemma heap_top_None: "heap_top h = None \<longleftrightarrow> h = []"
  by (cases h) auto

lemma pop_heap_spec:
  assumes "c \<noteq> []"
  shows "length (pop_heap c) = length c \<and> mset (pop_heap c) = mset c
         \<and> last (pop_heap c) = c ! 0"
proof (cases "length c > 1")
  case False
  with assms have "length c = 1" by (cases c) auto
  then obtain x where "c = [x]" by (cases c) auto
  then show ?thesis by (simp add: pop_heap_def)
next
  case True
  let ?last = "length c - 1"
  let ?c = "c[?last := c ! 0]"
  from True have a: "0 < ?last" "?last \<le> length ?c" by simp_all
  from adjust_heap_spec [OF a, of "c ! ?last"]
  have l: "length (adjust_heap ?c 0 ?last (c ! ?last)) = length c"
    and m: "mset (adjust_heap ?c 0 ?last (c ! ?last)) = mset (?c[0 := c ! ?last])"
    and k: "adjust_heap ?c 0 ?last (c ! ?last) ! ?last = ?c ! ?last"
    by simp_all
  have p: "pop_heap c = adjust_heap ?c 0 ?last (c ! ?last)"
    using True by (simp add: pop_heap_def Let_def)
  from True have "mset (?c[0 := c ! ?last]) = mset c"
    using mset_swap [of 0 c ?last] assms by simp
  moreover have "last (pop_heap c) = c ! 0"
  proof -
    from l True have "adjust_heap ?c 0 ?last (c ! ?last) \<noteq> []" by auto
    from last_conv_nth [OF this] l k True show ?thesis unfolding p by simp
  qed
  ultimately show ?thesis unfolding p using l m by simp
qed

lemma mset_heap_pop: "heap_top h = Some t \<Longrightarrow> mset h = add_mset t (mset (heap_pop h))"
proof -
  assume t: "heap_top h = Some t"
  then have ne: "h \<noteq> []" and t0: "t = h ! 0" by (cases h; simp)+
  from pop_heap_spec [OF ne]
  have l: "length (pop_heap h) = length h" and m: "mset (pop_heap h) = mset h"
    and la: "last (pop_heap h) = t"
    by (simp_all add: t0)
  from l ne have "pop_heap h \<noteq> []" by auto
  then have "pop_heap h = butlast (pop_heap h) @ [last (pop_heap h)]" by simp
  then have "mset (pop_heap h) = add_mset (last (pop_heap h)) (mset (butlast (pop_heap h)))"
    by (metis mset.simps(2) mset_append add_mset_add_single mset.simps(1) union_mset_add_mset_right add.right_neutral)
  with m la show ?thesis by (simp add: heap_pop_def)
qed

lemma heap_emplace_spec:
  "mset (heap_emplace x h) = add_mset x (mset h) \<and> length (heap_emplace x h) = Suc (length h)"
proof -
  have l: "length h < length (h @ [x])" by simp
  from push_heap_loop_spec [OF l, of 0 x]
  show ?thesis by (simp add: heap_emplace_def push_heap_def)
qed

lemma collect_leaves_spec:
  "collect_leaves fm lw h = (lw', h') \<Longrightarrow>
     lw' = lw + length (filter (\<lambda>x. snd x = 1) fm)
     \<and> mset h' = mset h + mset (map (\<lambda>x. Leaf (fst x) (snd x)) (filter (\<lambda>x. snd x \<noteq> 1) fm))"
proof (induction fm arbitrary: lw h)
  case Nil
  then show ?case by simp
next
  case (Cons x xs)
  show ?case
  proof (cases "snd x = 1")
    case True
    with Cons.prems have "collect_leaves xs (lw + 1) h = (lw', h')" by simp
    from Cons.IH [OF this] True show ?thesis by simp
  next
    case False
    with Cons.prems
    have "collect_leaves xs lw (heap_emplace (Leaf (fst x) (snd x)) h) = (lw', h')" by simp
    from Cons.IH [OF this] False show ?thesis by (simp add: heap_emplace_spec)
  qed
qed

lemma cull_loop_spec:
  "cull_loop limit lw h = (lw', h') \<Longrightarrow>
     length h' \<le> limit \<and> mset h' \<subseteq># mset h
     \<and> lw' = lw + sum_mset (image_mset weight (mset h - mset h'))
     \<and> (length h \<le> limit \<longrightarrow> h' = h)"
proof (induction limit lw h rule: cull_loop.induct)
  case (1 limit literal_weight heap)
  show ?case
  proof (cases "length heap > limit")
    case False
    with "1.prems" show ?thesis by (simp add: cull_loop.simps)
  next
    case True
    then have "heap \<noteq> []" by auto
    then obtain node where t: "heap_top heap = Some node"
      by (cases heap) auto
    from "1.prems" True t
    have r: "cull_loop limit (literal_weight + weight node) (heap_pop heap) = (lw', h')"
      by (subst (asm) cull_loop.simps) simp
    note ih = "1.IH" [OF True t r]
    note m = mset_heap_pop [OF t]
    from ih have sub: "mset h' \<subseteq># mset (heap_pop heap)" by simp
    have d: "mset heap - mset h' = add_mset node (mset (heap_pop heap) - mset h')"
      unfolding m
    proof (rule multiset_eqI)
      fix y
      from sub have "count (mset h') y \<le> count (mset (heap_pop heap)) y"
        by (rule mset_subset_eq_count)
      then show "count (add_mset node (mset (heap_pop heap)) - mset h') y
          = count (add_mset node (mset (heap_pop heap) - mset h')) y"
        by (auto simp add: Suc_diff_le)
    qed
    from ih sub True show ?thesis
      unfolding d by (auto simp add: m intro: subset_mset.order_trans)
  qed
qed


lemma merge_loop_single:
  "h \<noteq> [] \<Longrightarrow>
     \<exists>t. merge_loop h = [t] \<and> mset (leaves t) = (\<Sum>x\<in>#mset h. mset (leaves x))"
proof (induction h rule: merge_loop.induct)
  case (1 heap)
  show ?case
  proof (cases "length heap > 1")
    case False
    with "1.prems" obtain t where "heap = [t]"
      by (cases heap) auto
    then show ?thesis by (simp add: merge_loop.simps)
  next
    case True
    with "1.prems" obtain left where l: "heap_top heap = Some left"
      by (cases heap) auto
    note ml = mset_heap_pop [OF l]
    from True have "size (mset heap) > 1" by simp
    then have "heap_pop heap \<noteq> []" unfolding ml by auto
    then obtain right where r: "heap_top (heap_pop heap) = Some right"
      by (cases "heap_pop heap") auto
    note mr = mset_heap_pop [OF r]
    let ?h = "heap_emplace (Node left right) (heap_pop (heap_pop heap))"
    have step: "merge_loop heap = merge_loop ?h"
      using True l r by (subst merge_loop.simps) (simp add: Let_def)
    have "?h \<noteq> []" using heap_emplace_spec [of "Node left right" "heap_pop (heap_pop heap)"] by auto
    from "1.IH" [OF True l refl r this]
    obtain t where t: "merge_loop ?h = [t]"
      and lv: "mset (leaves t) = (\<Sum>x\<in>#mset ?h. mset (leaves x))"
      by blast
    have "(\<Sum>x\<in>#mset ?h. mset (leaves x)) = (\<Sum>x\<in>#mset heap. mset (leaves x))"
      unfolding ml mr by (simp add: heap_emplace_spec)
    with t lv step show ?thesis by simp
  qed
qed


lemma merge_loop_Nil: "merge_loop [] = []"
  by (simp add: merge_loop.simps)

lemma sum_mset_ones:
  "(\<Sum>x \<in># mset (filter (\<lambda>x. f x = 1) xs). f x) = length (filter (\<lambda>x. f x = (1::nat)) xs)"
  by (induction xs) auto

lemma sum_mset_singletons: "(\<Sum>t\<in>#mset xs. {#f t#}) = mset (map f xs)"
  by (induction xs) auto

text \<open>
  Claim C8, amended.  \<open>buildHuffmanTree\<close> keeps a leaf for at most \<open>limit\<close> entries of
  the frequency map (the list \<open>kept\<close>); an entry loses its leaf only when its count
  is 1 or the number of entries with a count other than 1 exceeds \<open>limit\<close>; and the
  literal sentinel leaf, present when that sum is positive, weighs exactly the summed
  counts of the entries that lost their leaf.  When nothing is kept and nothing
  weighs, the queue is empty and no tree is returned.
\<close>

theorem buildHuffmanTree_literal_absorbs_culled:
  "\<exists>kept lw.
      mset kept \<subseteq># mset fm \<and> length kept \<le> limit
      \<and> (\<forall>x \<in> set kept. snd x \<noteq> 1)
      \<and> (\<forall>x \<in># mset fm - mset kept.
            snd x = 1 \<or> limit < length (filter (\<lambda>x. snd x \<noteq> 1) fm))
      \<and> lw = (\<Sum>x \<in># mset fm - mset kept. snd x)
      \<and> (case buildHuffmanTree fm limit literal of
            None \<Rightarrow> kept = [] \<and> lw = 0
          | Some t \<Rightarrow>
              mset (leaves t) = mset kept + (if lw > 0 then {#(literal, lw)#} else {#}))"
proof -
  define ones where "ones = filter (\<lambda>x. snd x = 1) fm"
  define rest where "rest = filter (\<lambda>x. snd x \<noteq> 1) fm"
  define leaf where "leaf = (\<lambda>x :: AlphaCode \<times> nat. Leaf (fst x) (snd x))"
  define entry where "entry = (\<lambda>t. (code t, weight t))"
  obtain lw0 h0 where c0: "collect_leaves fm 0 [] = (lw0, h0)"
    by (cases "collect_leaves fm 0 []") auto
  from collect_leaves_spec [OF c0]
  have lw0: "lw0 = length ones" and h0: "mset h0 = mset (map leaf rest)"
    by (simp_all add: ones_def rest_def leaf_def)
  have c: "collect_leaves fm 0 [] = (length ones, h0)"
    using c0 lw0 by simp
  from h0 have len0: "length h0 = length rest"
    by (metis length_map size_mset)
  obtain lw h1 where cl: "cull_loop limit (length ones) h0 = (lw, h1)"
    by (cases "cull_loop limit (length ones) h0") auto
  from cull_loop_spec [OF cl]
  have len: "length h1 \<le> limit" and sub: "mset h1 \<subseteq># mset h0"
    and lw: "lw = length ones + sum_mset (image_mset weight (mset h0 - mset h1))"
    and same: "length h0 \<le> limit \<longrightarrow> h1 = h0"
    by simp_all
  define kept where "kept = map entry h1"
  have inv: "entry (leaf x) = x" for x
    by (simp add: entry_def leaf_def)
  have rest_eq: "image_mset entry (mset h0) = mset rest"
    by (simp add: h0 multiset.map_comp comp_def inv)
  have in_h0: "t \<in> set h0" if "t \<in> set h1" for t
    using set_mset_mono [OF sub] that by auto
  have all_leaf: "leaves t = [entry t]" if "t \<in> set h1" for t
  proof -
    from in_h0 [OF that] have "t \<in># mset h0" by simp
    then have "t \<in> set (map leaf rest)" unfolding h0 by simp
    then show ?thesis by (auto simp add: leaf_def entry_def)
  qed
  have kept_mset: "mset kept = image_mset entry (mset h1)"
    by (simp add: kept_def)
  have kept_sub_rest: "mset kept \<subseteq># mset rest"
    using image_mset_subseteq_mono [OF sub, of entry] by (simp only: rest_eq kept_mset)
  have split: "mset fm = mset ones + mset rest"
    unfolding ones_def rest_def mset_filter by (rule multiset_partition)
  have kept_sub: "mset kept \<subseteq># mset fm"
    unfolding split using kept_sub_rest by (rule subset_mset.add_increasing [OF subset_mset.bot_least])
  have diff: "mset fm - mset kept = mset ones + (mset rest - mset kept)"
    unfolding split using kept_sub_rest by (simp add: subset_mset.add_diff_assoc)
  have culled: "mset rest - mset kept = image_mset entry (mset h0 - mset h1)"
    by (simp only: image_mset_Diff [OF sub] rest_eq kept_mset)
  have ones_sum: "(\<Sum>x \<in># mset ones. snd x) = length ones"
    unfolding ones_def by (rule sum_mset_ones)
  have w: "snd (entry t) = weight t" for t
    by (simp add: entry_def)
  have lw_eq: "lw = (\<Sum>x \<in># mset fm - mset kept. snd x)"
    unfolding diff culled lw by (simp add: ones_sum multiset.map_comp comp_def w)
  have why: "snd x = 1 \<or> limit < length rest" if "x \<in># mset fm - mset kept" for x
  proof (cases "length h0 \<le> limit")
    case True
    with same have "h1 = h0" by simp
    then have "mset rest - mset kept = {#}"
      unfolding culled by simp
    with that have "x \<in> set ones" unfolding diff by simp
    then show ?thesis by (simp add: ones_def)
  next
    case False
    then show ?thesis by (simp add: len0)
  qed
  have not_one: "snd x \<noteq> 1" if "x \<in> set kept" for x
  proof -
    from that set_mset_mono [OF kept_sub_rest] have "x \<in> set rest" by auto
    then show ?thesis by (simp add: rest_def)
  qed
  have leaves_h1: "(\<Sum>t\<in>#mset h1. mset (leaves t)) = mset kept"
  proof -
    have "(\<Sum>t\<in>#mset h1. mset (leaves t)) = (\<Sum>t\<in>#mset h1. {#entry t#})"
      by (intro arg_cong [where f = sum_mset] image_mset_cong) (simp add: all_leaf)
    then show ?thesis by (simp only: sum_mset_singletons kept_def)
  qed
  define h2 where "h2 = (if lw > 0 then heap_emplace (Leaf literal lw) h1 else h1)"
  have b: "buildHuffmanTree fm limit literal = heap_top (merge_loop h2)"
    by (simp add: buildHuffmanTree_def c cl h2_def)
  have final: "case buildHuffmanTree fm limit literal of
            None \<Rightarrow> kept = [] \<and> lw = 0
          | Some t \<Rightarrow>
              mset (leaves t) = mset kept + (if lw > 0 then {#(literal, lw)#} else {#})"
  proof (cases "h2 = []")
    case True
    then have "h1 = [] \<and> lw = 0"
      using heap_emplace_spec [of "Leaf literal lw" h1]
      by (auto simp add: h2_def split: if_splits)
    with True show ?thesis by (simp add: b merge_loop_Nil kept_def)
  next
    case False
    from merge_loop_single [OF this]
    obtain t where t: "merge_loop h2 = [t]"
      and lv: "mset (leaves t) = (\<Sum>x\<in>#mset h2. mset (leaves x))"
      by blast
    have "(\<Sum>x\<in>#mset h2. mset (leaves x))
        = mset kept + (if lw > 0 then {#(literal, lw)#} else {#})"
      using leaves_h1 by (simp add: h2_def heap_emplace_spec)
    with t lv show ?thesis by (simp add: b)
  qed
  have len_kept: "length kept \<le> limit"
    using len by (simp add: kept_def)
  from kept_sub len_kept not_one why lw_eq final
  have "mset kept \<subseteq># mset fm \<and> length kept \<le> limit
      \<and> (\<forall>x \<in> set kept. snd x \<noteq> 1)
      \<and> (\<forall>x \<in># mset fm - mset kept.
            snd x = 1 \<or> limit < length (filter (\<lambda>x. snd x \<noteq> 1) fm))
      \<and> lw = (\<Sum>x \<in># mset fm - mset kept. snd x)
      \<and> (case buildHuffmanTree fm limit literal of
            None \<Rightarrow> kept = [] \<and> lw = 0
          | Some t \<Rightarrow>
              mset (leaves t) = mset kept + (if lw > 0 then {#(literal, lw)#} else {#}))"
    unfolding rest_def by blast
  then show ?thesis by blast
qed


text \<open>
  Claim C8 as stated fails: with two codes and a limit of 128 the code seen once
  still loses its leaf, because the first loop sends every count of 1 to the literal
  weight whatever the limit.
\<close>

theorem singleton_code_culled_below_limit:
  "buildHuffmanTree [(0x0200000000000001, 5), (0x0300000000000003, 1)] 128 0x0100000000000000
     = Some (Node (Leaf 0x0100000000000000 1) (Leaf 0x0200000000000001 5))
   \<and> length [(0x0200000000000001 :: AlphaCode, 5 :: nat), (0x0300000000000003, 1)] \<le> 128"
  by code_simp

lemma build_example:
  "buildHuffmanTree [(1, 5), (2, 1), (3, 7), (4, 2), (5, 2), (6, 9)] 2 0
     = Some (Node (Leaf 0 10) (Node (Leaf 3 7) (Leaf 6 9)))"
  by code_simp

theorem buildHuffmanTree_literal_absorbs_culled_witness:
  "buildHuffmanTree [(1, 5), (2, 1), (3, 7), (4, 2), (5, 2), (6, 9)] 2 0
     = Some (Node (Leaf 0 10) (Node (Leaf 3 7) (Leaf 6 9)))
   \<and> (\<exists>kept lw.
        mset kept \<subseteq># mset [(1 :: AlphaCode, 5 :: nat), (2, 1), (3, 7), (4, 2), (5, 2), (6, 9)]
        \<and> length kept \<le> 2
        \<and> lw = (\<Sum>x \<in># mset [(1 :: AlphaCode, 5 :: nat), (2, 1), (3, 7), (4, 2), (5, 2), (6, 9)]
                       - mset kept. snd x)
        \<and> mset [(0 :: AlphaCode, 10 :: nat), (3, 7), (6, 9)]
            = mset kept + (if lw > 0 then {#(0, lw)#} else {#}))"
proof -
  from buildHuffmanTree_literal_absorbs_culled
    [of "[(1, 5), (2, 1), (3, 7), (4, 2), (5, 2), (6, 9)]" 2 0]
  obtain kept lw where
    "mset kept \<subseteq># mset [(1 :: AlphaCode, 5 :: nat), (2, 1), (3, 7), (4, 2), (5, 2), (6, 9)]"
    "length kept \<le> 2"
    "lw = (\<Sum>x \<in># mset [(1 :: AlphaCode, 5 :: nat), (2, 1), (3, 7), (4, 2), (5, 2), (6, 9)]
                       - mset kept. snd x)"
    "mset (leaves (Node (Leaf 0 10) (Node (Leaf 3 7) (Leaf 6 9))))
       = mset kept + (if lw > 0 then {#(0, lw)#} else {#})"
    unfolding build_example option.case by blast
  moreover have "leaves (Node (Leaf 0 10) (Node (Leaf 3 7) (Leaf 6 9))) = [(0, 10), (3, 7), (6, 9)]"
    by simp
  ultimately have "\<exists>kept lw.
        mset kept \<subseteq># mset [(1 :: AlphaCode, 5 :: nat), (2, 1), (3, 7), (4, 2), (5, 2), (6, 9)]
        \<and> length kept \<le> 2
        \<and> lw = (\<Sum>x \<in># mset [(1 :: AlphaCode, 5 :: nat), (2, 1), (3, 7), (4, 2), (5, 2), (6, 9)]
                       - mset kept. snd x)
        \<and> mset [(0 :: AlphaCode, 10 :: nat), (3, 7), (6, 9)]
            = mset kept + (if lw > 0 then {#(0, lw)#} else {#})"
    by metis
  with build_example show ?thesis by blast
qed

section \<open>Properties of the greedy parse\<close>

lemma bump_keys: "fst ` set (bump k m) = insert k (fst ` set m)"
  by (induction m) auto

lemma bump_sorted: "sorted (map fst m) \<Longrightarrow> sorted (map fst (bump k m))"
proof (induction m)
  case Nil
  then show ?case by simp
next
  case (Cons x m)
  then show ?case
    using bump_keys [of k m] by (auto simp add: image_iff)
qed

lemma bump_distinct:
  "sorted (map fst m) \<Longrightarrow> distinct (map fst m) \<Longrightarrow> distinct (map fst (bump k m))"
proof (induction m)
  case Nil
  then show ?case by simp
next
  case (Cons x m)
  then show ?case
    using bump_keys [of k m] by (auto simp add: image_iff)
qed

lemma bump_positive: "\<forall>x \<in> set m. snd x > 0 \<Longrightarrow> \<forall>x \<in> set (bump k m). snd x > 0"
  by (induction m) auto


lemma map_inv_step:
  assumes inv: "map_inv alpha i cm b" and i: "i < length alpha"
    and v: "v = i \<or> (v < i \<and> cm ! v = v)" and av: "alpha ! v = alpha ! i"
  defines "cm1 \<equiv> cm[i := v]"
  defines "b1 \<equiv> (if i > 0 then b[cm ! (i - 1) := bump v (b ! (cm ! (i - 1)))] else b)"
  shows "map_inv alpha (Suc i) cm1 b1"
proof -
  let ?n = "length alpha"
  from inv have len: "length cm = ?n" "length b = ?n"
    and le: "\<forall>p < ?n. cm ! p \<le> p"
    and idem: "\<forall>p < i. cm ! (cm ! p) = cm ! p \<and> alpha ! (cm ! p) = alpha ! p"
    and tab: "\<forall>a < ?n. sorted (map fst (b ! a)) \<and> distinct (map fst (b ! a))
            \<and> (\<forall>x \<in> set (b ! a). snd x > 0)
            \<and> fst ` set (b ! a) = {cm ! Suc p | p. Suc p < i \<and> cm ! p = a}"
    by (simp_all add: map_inv_def)
  have old: "cm1 ! p = cm ! p" if "p < i" for p
    using that by (simp add: cm1_def)
  have new: "cm1 ! i = v"
    using i len by (simp add: cm1_def)
  have vle: "v \<le> i" using v by auto
  have le1: "\<forall>p < ?n. cm1 ! p \<le> p"
  proof (intro allI impI)
    fix p assume "p < ?n"
    with le vle i len show "cm1 ! p \<le> p"
      by (cases "p = i") (simp_all add: cm1_def)
  qed
  have idem1: "\<forall>p < Suc i. cm1 ! (cm1 ! p) = cm1 ! p \<and> alpha ! (cm1 ! p) = alpha ! p"
  proof (intro allI impI)
    fix p assume "p < Suc i"
    then consider "p < i" | "p = i" by linarith
    then show "cm1 ! (cm1 ! p) = cm1 ! p \<and> alpha ! (cm1 ! p) = alpha ! p"
    proof cases
      case 1
      with le i have "cm ! p < i" by (meson le_less_trans less_trans)
      with 1 idem show ?thesis by (simp add: old)
    next
      case 2
      from v show ?thesis
      proof
        assume "v = i"
        with 2 new show ?thesis by simp
      next
        assume "v < i \<and> cm ! v = v"
        with 2 new av show ?thesis by (simp add: old)
      qed
    qed
  qed
  have last_lt: "cm ! (i - 1) < ?n" if "i > 0"
    using that le i by (meson diff_less le_less_trans less_trans zero_less_one)
  have tab1: "sorted (map fst (b1 ! a)) \<and> distinct (map fst (b1 ! a))
            \<and> (\<forall>x \<in> set (b1 ! a). snd x > 0)
            \<and> fst ` set (b1 ! a) = {cm1 ! Suc p | p. Suc p < Suc i \<and> cm1 ! p = a}"
    if a: "a < ?n" for a
  proof -
    from tab a have ta: "sorted (map fst (b ! a))" "distinct (map fst (b ! a))"
      "\<forall>x \<in> set (b ! a). snd x > 0"
      "fst ` set (b ! a) = {cm ! Suc p | p. Suc p < i \<and> cm ! p = a}"
      by simp_all
    have keys_old: "{cm1 ! Suc p | p. Suc p < i \<and> cm1 ! p = a}
        = {cm ! Suc p | p. Suc p < i \<and> cm ! p = a}"
      by (auto simp add: old) (metis Suc_lessD old)+
    have split: "{cm1 ! Suc p | p. Suc p < Suc i \<and> cm1 ! p = a}
        = {cm1 ! Suc p | p. Suc p < i \<and> cm1 ! p = a}
          \<union> (if i > 0 \<and> cm ! (i - 1) = a then {v} else {})"
    proof (cases "i > 0")
      case False
      then show ?thesis by auto
    next
      case True
      then obtain i' where i': "i = Suc i'" by (cases i) auto
      have "{cm1 ! Suc p | p. Suc p < Suc i \<and> cm1 ! p = a}
          = {cm1 ! Suc p | p. Suc p < i \<and> cm1 ! p = a}
            \<union> {cm1 ! Suc p | p. Suc p = i \<and> cm1 ! p = a}"
        by (auto simp add: less_Suc_eq)
      also have "{cm1 ! Suc p | p. Suc p = i \<and> cm1 ! p = a}
          = (if cm ! i' = a then {v} else {})"
        using new by (auto simp add: i' old)
      finally show ?thesis using True by (simp add: i')
    qed
    show ?thesis
    proof (cases "i > 0 \<and> cm ! (i - 1) = a")
      case True
      then have "b1 ! a = bump v (b ! a)"
        using a len by (simp add: b1_def)
      with ta True show ?thesis
        unfolding split keys_old
        by (simp add: bump_keys bump_sorted bump_distinct bump_positive)
    next
      case False
      then have "b1 ! a = b ! a"
        by (auto simp add: b1_def)
      with ta False show ?thesis
        unfolding split keys_old by auto
    qed
  qed
  from i len le1 idem1 tab1 show ?thesis
    unfolding map_inv_def
    by (simp add: cm1_def b1_def)
qed


lemma copy_span_inv:
  assumes "map_inv alpha i cm b" and "j < i" and "i + (e - j) \<le> length alpha"
    and "\<forall>k < e - j. alpha ! (j + k) = alpha ! (i + k)"
  shows "\<exists>cm' b'. copy_span j e i cm b = Inr (i + (e - j), cm', b')
           \<and> map_inv alpha (i + (e - j)) cm' b'
           \<and> (\<forall>p < i. cm' ! p = cm ! p)
           \<and> (\<forall>p. i \<le> p \<and> p < i + (e - j) \<longrightarrow> cm' ! p < p)"
  using assms
proof (induction "e - j" arbitrary: j i cm b)
  case 0
  then have "\<not> j < e" by simp
  with 0 show ?case by (subst copy_span.simps) simp
next
  case (Suc d)
  let ?n = "length alpha"
  from Suc.hyps(2) have je: "j < e" by simp
  from Suc.prems(3) je have i: "i < ?n" by simp
  from Suc.prems(1) have len: "length cm = ?n" "length b = ?n"
    and le: "\<forall>p < ?n. cm ! p \<le> p"
    and idem: "\<forall>p < i. cm ! (cm ! p) = cm ! p \<and> alpha ! (cm ! p) = alpha ! p"
    by (simp_all add: map_inv_def)
  from Suc.prems(2) have ipos: "i > 0" by simp
  let ?v = "cm ! j"
  let ?cm1 = "cm[i := ?v]"
  let ?last = "cm ! (i - 1)"
  let ?b1 = "b[?last := bump ?v (b ! ?last)]"
  have vj: "?v \<le> j" using le Suc.prems(2) i by simp
  then have vi: "?v < i" using Suc.prems(2) by simp
  have "alpha ! j = alpha ! i"
    using Suc.prems(4) je by (metis add.right_neutral zero_less_diff)
  with idem Suc.prems(2) have av: "alpha ! ?v = alpha ! i" by simp
  from idem Suc.prems(2) have fixpt: "cm ! ?v = ?v" by simp
  have last: "?cm1 ! (i - 1) = ?last" using ipos by simp
  have last_lt: "?last < length b"
    using le i ipos len by (metis diff_less le_less_trans less_imp_diff_less zero_less_one)
  have step: "copy_span j e i cm b = copy_span (j + 1) e (i + 1) ?cm1 ?b1"
    using je Suc.prems(2) i len ipos last_lt
    by (subst copy_span.simps) (simp add: Let_def)
  have inv1: "map_inv alpha (Suc i) ?cm1 ?b1"
    using map_inv_step [OF Suc.prems(1) i _ av] vi fixpt ipos by simp
  have d: "d = e - (j + 1)" using Suc.hyps(2) by simp
  have shift: "\<forall>k < e - (j + 1). alpha ! (j + 1 + k) = alpha ! (i + 1 + k)"
  proof (intro allI impI)
    fix k assume "k < e - (j + 1)"
    then have "Suc k < e - j" by simp
    with Suc.prems(4) have "alpha ! (j + Suc k) = alpha ! (i + Suc k)" by blast
    then show "alpha ! (j + 1 + k) = alpha ! (i + 1 + k)" by simp
  qed
  have bound: "i + 1 + (e - (j + 1)) \<le> ?n" using Suc.prems(3) je by simp
  from Suc.hyps(1) [OF d _ _ bound shift, of ?cm1 ?b1] inv1 Suc.prems(2)
  obtain cm' b' where r: "copy_span (j + 1) e (i + 1) ?cm1 ?b1 = Inr (i + 1 + (e - (j + 1)), cm', b')"
    and inv': "map_inv alpha (i + 1 + (e - (j + 1))) cm' b'"
    and keep: "\<forall>p < i + 1. cm' ! p = ?cm1 ! p"
    and below: "\<forall>p. i + 1 \<le> p \<and> p < i + 1 + (e - (j + 1)) \<longrightarrow> cm' ! p < p"
    by auto
  have e: "i + 1 + (e - (j + 1)) = i + (e - j)" using je by simp
  have keep': "\<forall>p < i. cm' ! p = cm ! p" using keep by simp
  have "cm' ! i = ?v" using keep i len by simp
  with vi below have below': "\<forall>p. i \<le> p \<and> p < i + (e - j) \<longrightarrow> cm' ! p < p"
    unfolding e by (metis Suc_eq_plus1 Suc_leI le_neq_implies_less)
  from r inv' keep' below' show ?case
    unfolding step e by blast
qed


lemma parse_iteration_literal:
  assumes inv: "map_inv alpha (p_i st) (p_copyMap st) (p_branchFrequencyMap st)"
    and i: "p_i st < length alpha"
    and short: "\<not> span_length (find_prior (p_i st) alpha (p_nextSpan st)) > 3"
  shows "\<exists>st'. parse_iteration find_prior alpha st = Inr st'
           \<and> p_i st' = Suc (p_i st)
           \<and> p_copyMap st' = (p_copyMap st)[p_i st := p_i st]
           \<and> p_spans st' = p_spans st
           \<and> p_currentSpan st' = (p_currentSpan st)
                 \<lparr>span_length := span_length (p_currentSpan st) + 1\<rparr>
           \<and> map_inv alpha (p_i st') (p_copyMap st') (p_branchFrequencyMap st')"
proof -
  let ?n = "length alpha"
  from inv have len: "length (p_copyMap st) = ?n" "length (p_branchFrequencyMap st) = ?n"
    and le: "\<forall>p < ?n. p_copyMap st ! p \<le> p"
    by (simp_all add: map_inv_def)
  have last_lt: "p_copyMap st ! (p_i st - 1) < ?n" if "p_i st > 0"
    using that le i by (metis diff_less le_less_trans less_imp_diff_less zero_less_one)
  from map_inv_step [OF inv i, of "p_i st"]
  have "map_inv alpha (Suc (p_i st)) ((p_copyMap st)[p_i st := p_i st])
     (if 0 < p_i st
      then (p_branchFrequencyMap st)[p_copyMap st ! (p_i st - 1) :=
             bump (p_i st) (p_branchFrequencyMap st ! (p_copyMap st ! (p_i st - 1)))]
      else p_branchFrequencyMap st)"
    by simp
  with short i len last_lt show ?thesis
    by (auto simp add: parse_iteration_def Let_def)
qed

lemma parse_iteration_back_reference:
  assumes inv: "map_inv alpha (p_i st) (p_copyMap st) (p_branchFrequencyMap st)"
    and i: "p_i st < length alpha"
    and sound: "prior_sound find_prior alpha"
    and long: "span_length (find_prior (p_i st) alpha (p_nextSpan st)) > 3"
  shows "\<exists>st'. parse_iteration find_prior alpha st = Inr st'
           \<and> p_i st' = p_i st + span_length (find_prior (p_i st) alpha (p_nextSpan st))
           \<and> p_spans st' =
               (if span_length (p_currentSpan st) > 0 then p_spans st @ [p_currentSpan st]
                else p_spans st) @ [find_prior (p_i st) alpha (p_nextSpan st)]
           \<and> p_currentSpan st' = (p_currentSpan st)\<lparr>span_start := p_i st', span_length := 0\<rparr>
           \<and> map_inv alpha (p_i st') (p_copyMap st') (p_branchFrequencyMap st')
           \<and> (\<forall>p < p_i st. p_copyMap st' ! p = p_copyMap st ! p)
           \<and> (\<forall>p. p_i st \<le> p \<and> p < p_i st' \<longrightarrow> p_copyMap st' ! p < p)"
proof -
  let ?r = "find_prior (p_i st) alpha (p_nextSpan st)"
  from sound i long have s: "span_start ?r < p_i st"
    and fit: "p_i st + span_length ?r \<le> length alpha"
    and eq: "\<forall>k < span_length ?r. alpha ! (span_start ?r + k) = alpha ! (p_i st + k)"
    unfolding prior_sound_def Let_def by blast+
  from copy_span_inv [OF inv s, of "span_start ?r + span_length ?r"] fit eq
  obtain cm' b' where
    c: "copy_span (span_start ?r) (span_start ?r + span_length ?r) (p_i st) (p_copyMap st)
          (p_branchFrequencyMap st) = Inr (p_i st + span_length ?r, cm', b')"
    and inv': "map_inv alpha (p_i st + span_length ?r) cm' b'"
    and keep: "\<forall>p < p_i st. cm' ! p = p_copyMap st ! p"
    and below: "\<forall>p. p_i st \<le> p \<and> p < p_i st + span_length ?r \<longrightarrow> cm' ! p < p"
    by auto
  from long c inv' keep below show ?thesis
    by (simp add: parse_iteration_def Let_def)
qed

lemma parse_init_inv:
  "map_inv alpha (p_i (parse_init subsong channel (length alpha)))
     (p_copyMap (parse_init subsong channel (length alpha)))
     (p_branchFrequencyMap (parse_init subsong channel (length alpha)))"
  by (simp add: parse_init_def map_inv_def)

lemma parse_run_inv:
  assumes "parse_run find_prior alpha subsong channel st lits"
    and sound: "prior_sound find_prior alpha"
  shows "map_inv alpha (p_i st) (p_copyMap st) (p_branchFrequencyMap st)
         \<and> (\<forall>p < p_i st. p_copyMap st ! p = p \<longleftrightarrow> p \<in> lits)
         \<and> (\<forall>p \<in> lits. p < p_i st)"
  using assms(1)
proof (induction rule: parse_run.induct)
  case start
  show ?case using parse_init_inv by (simp add: parse_init_def)
next
  case (literal st lits st')
  then have inv: "map_inv alpha (p_i st) (p_copyMap st) (p_branchFrequencyMap st)"
    and iff: "\<forall>p < p_i st. p_copyMap st ! p = p \<longleftrightarrow> p \<in> lits"
    and sub: "\<forall>p \<in> lits. p < p_i st"
    by simp_all
  from inv have len: "length (p_copyMap st) = length alpha" by (simp add: map_inv_def)
  from parse_iteration_literal [of alpha st find_prior, OF inv literal.hyps(2) literal.hyps(3)]
    literal.hyps(4)
  have i': "p_i st' = Suc (p_i st)"
    and cm': "p_copyMap st' = (p_copyMap st)[p_i st := p_i st]"
    and inv': "map_inv alpha (p_i st') (p_copyMap st') (p_branchFrequencyMap st')"
    by auto
  have "\<forall>p < p_i st'. p_copyMap st' ! p = p \<longleftrightarrow> p \<in> insert (p_i st) lits"
    unfolding i' cm' using iff sub literal.hyps(2) len
    by (auto simp add: less_Suc_eq nth_list_update)
  moreover have "\<forall>p \<in> insert (p_i st) lits. p < p_i st'"
    unfolding i' using sub by auto
  ultimately show ?case using inv' by blast
next
  case (back_reference st lits st')
  then have inv: "map_inv alpha (p_i st) (p_copyMap st) (p_branchFrequencyMap st)"
    and iff: "\<forall>p < p_i st. p_copyMap st ! p = p \<longleftrightarrow> p \<in> lits"
    and sub: "\<forall>p \<in> lits. p < p_i st"
    by simp_all
  from parse_iteration_back_reference
    [of alpha st find_prior, OF inv back_reference.hyps(2) sound back_reference.hyps(3)]
    back_reference.hyps(4)
  have i': "p_i st \<le> p_i st'"
    and inv': "map_inv alpha (p_i st') (p_copyMap st') (p_branchFrequencyMap st')"
    and keep: "\<forall>p < p_i st. p_copyMap st' ! p = p_copyMap st ! p"
    and below: "\<forall>p. p_i st \<le> p \<and> p < p_i st' \<longrightarrow> p_copyMap st' ! p < p"
    by auto
  have "\<forall>p < p_i st'. p_copyMap st' ! p = p \<longleftrightarrow> p \<in> lits"
  proof (intro allI impI)
    fix p assume p: "p < p_i st'"
    show "p_copyMap st' ! p = p \<longleftrightarrow> p \<in> lits"
    proof (cases "p < p_i st")
      case True
      with keep iff show ?thesis by simp
    next
      case False
      with below p have "p_copyMap st' ! p < p" by simp
      moreover from False sub have "p \<notin> lits" by auto
      ultimately show ?thesis by simp
    qed
  qed
  moreover have "\<forall>p \<in> lits. p < p_i st'" using sub i' by auto
  ultimately show ?case using inv' by blast
qed

lemma greedy_parse_runs:
  assumes sound: "prior_sound find_prior alpha"
    and run: "parse_run find_prior alpha subsong channel st lits"
  shows "\<exists>st' lits'. greedy_parse find_prior alpha st = Inr st'
           \<and> parse_run find_prior alpha subsong channel st' lits'
           \<and> p_i st' = length alpha"
  using run
proof (induction "length alpha - p_i st" arbitrary: st lits rule: less_induct)
  case less
  note inv = parse_run_inv [OF less.prems sound]
  then have le: "p_i st \<le> length alpha" by (simp add: map_inv_def)
  show ?case
  proof (cases "p_i st < length alpha")
    case False
    with le have "p_i st = length alpha" by simp
    with False less.prems show ?thesis
      by (subst greedy_parse.simps) auto
  next
    case True
    obtain st1 lits1 where it: "parse_iteration find_prior alpha st = Inr st1"
      and run1: "parse_run find_prior alpha subsong channel st1 lits1"
      and adv: "p_i st < p_i st1"
    proof (cases "span_length (find_prior (p_i st) alpha (p_nextSpan st)) > 3")
      case long: True
      from parse_iteration_back_reference [of alpha st find_prior, OF _ True sound long] inv
      obtain st1 where 1: "parse_iteration find_prior alpha st = Inr st1"
        and 2: "p_i st1 = p_i st + span_length (find_prior (p_i st) alpha (p_nextSpan st))"
        by blast
      from parse_run.back_reference [OF less.prems True long 1] 1 2 long that
      show ?thesis by simp
    next
      case short: False
      from parse_iteration_literal [of alpha st find_prior, OF _ True short] inv
      obtain st1 where 1: "parse_iteration find_prior alpha st = Inr st1"
        and 2: "p_i st1 = Suc (p_i st)"
        by blast
      from parse_run.literal [OF less.prems True short 1] 1 2 that
      show ?thesis by simp
    qed
    have step: "greedy_parse find_prior alpha st = greedy_parse find_prior alpha st1"
      using True it by (subst greedy_parse.simps) simp
    from adv True have "length alpha - p_i st1 < length alpha - p_i st" by simp
    from less.hyps [OF this run1] show ?thesis unfolding step .
  qed
qed

text \<open>
  Claim C7.  Throughout the greedy parse (every state the loop reaches, given a
  \<open>find_prior\<close> that keeps its contract), \<open>copyMap[p] \<le> p\<close> for every position of
  the input, and for the positions parsed so far \<open>copyMap[p] = p\<close> exactly when
  \<open>p\<close> went through the literal branch.  The loop ends, without error, in such a
  state with every position parsed.
\<close>

theorem copyMap_points_back:
  assumes "prior_sound find_prior alphaSequence"
  shows "(\<forall>st lits. parse_run find_prior alphaSequence subsong channel st lits \<longrightarrow>
            (\<forall>p < length alphaSequence. p_copyMap st ! p \<le> p)
            \<and> (\<forall>p < p_i st. p_copyMap st ! p = p \<longleftrightarrow> p \<in> lits))
         \<and> (\<exists>st lits.
              greedy_parse find_prior alphaSequence
                (parse_init subsong channel (length alphaSequence)) = Inr st
              \<and> parse_run find_prior alphaSequence subsong channel st lits
              \<and> p_i st = length alphaSequence)"
proof -
  have "(\<forall>p < length alphaSequence. p_copyMap st ! p \<le> p)
        \<and> (\<forall>p < p_i st. p_copyMap st ! p = p \<longleftrightarrow> p \<in> lits)"
    if "parse_run find_prior alphaSequence subsong channel st lits" for st lits
    using parse_run_inv [OF that assms] by (simp add: map_inv_def)
  moreover have "\<exists>st lits.
      greedy_parse find_prior alphaSequence
        (parse_init subsong channel (length alphaSequence)) = Inr st
      \<and> parse_run find_prior alphaSequence subsong channel st lits
      \<and> p_i st = length alphaSequence"
    by (rule greedy_parse_runs [OF assms parse_run.start])
  ultimately show ?thesis by blast
qed


lemma common_prefix_length_le:
  "common_prefix_length xs ys \<le> length xs \<and> common_prefix_length xs ys \<le> length ys"
  by (induction xs ys rule: common_prefix_length.induct) auto

lemma common_prefix_length_nth:
  "k < common_prefix_length xs ys \<Longrightarrow> xs ! k = ys ! k"
proof (induction xs ys arbitrary: k rule: common_prefix_length.induct)
  case (1 x xs y ys)
  then show ?case by (cases k) (auto split: if_splits)
qed auto

lemma longest_prior_result:
  "longest_prior seq i j best = best
   \<or> (fst (longest_prior seq i j best) < j
       \<and> snd (longest_prior seq i j best)
           = common_prefix_length (drop (fst (longest_prior seq i j best)) seq) (drop i seq))"
proof (induction j)
  case 0
  then show ?case by simp
next
  case (Suc j)
  then show ?case by (auto simp add: Let_def less_Suc_eq)
qed

lemma find_prior_longest_sound: "prior_sound find_prior_longest seq"
  unfolding prior_sound_def Let_def
proof (intro allI impI)
  fix i nextSpan
  assume i: "i < length seq"
    and long: "3 < span_length (find_prior_longest i seq nextSpan)"
  obtain j l where r: "longest_prior seq i i (0, 0) = (j, l)"
    by (cases "longest_prior seq i i (0, 0)") auto
  then have st: "span_start (find_prior_longest i seq nextSpan) = j"
    and ln: "span_length (find_prior_longest i seq nextSpan) = l"
    by (simp_all add: find_prior_longest_def)
  from long ln have "l > 3" by simp
  with r longest_prior_result [of seq i i "(0, 0)"]
  have j: "j < i" and l: "l = common_prefix_length (drop j seq) (drop i seq)"
    by auto
  from l common_prefix_length_le [of "drop j seq" "drop i seq"]
  have fit: "i + l \<le> length seq" and fitj: "j + l \<le> length seq"
    using i j by auto
  have "seq ! (j + k) = seq ! (i + k)" if "k < l" for k
  proof -
    from that l have "drop j seq ! k = drop i seq ! k"
      by (simp add: common_prefix_length_nth)
    with that fit fitj show ?thesis by simp
  qed
  with j fit show "span_start (find_prior_longest i seq nextSpan) < i
      \<and> i + span_length (find_prior_longest i seq nextSpan) \<le> length seq
      \<and> (\<forall>k < span_length (find_prior_longest i seq nextSpan).
            seq ! (span_start (find_prior_longest i seq nextSpan) + k) = seq ! (i + k))"
    unfolding st ln by blast
qed

lemma parse_example:
  "greedy_parse find_prior_longest [0, 1, 2, 3, 4, 5, 1, 2, 3, 4, 6] (parse_init 0 0 11)
     = Inr \<lparr>p_i = 11, p_copyMap = [0, 1, 2, 3, 4, 5, 1, 2, 3, 4, 10],
            p_branchFrequencyMap =
              [[(1, 1)], [(2, 2)], [(3, 2)], [(4, 2)], [(5, 1), (10, 1)], [(1, 1)],
               [], [], [], [], []],
            p_spans =
              [\<lparr>span_subsong = 0, span_channel = 0, span_start = 0, span_length = 6\<rparr>,
               \<lparr>span_subsong = 0, span_channel = 0, span_start = 1, span_length = 4\<rparr>],
            p_currentSpan =
              \<lparr>span_subsong = 0, span_channel = 0, span_start = 10, span_length = 1\<rparr>,
            p_nextSpan =
              \<lparr>span_subsong = 0, span_channel = 0, span_start = 0, span_length = 0\<rparr>\<rparr>"
  by code_simp

theorem copyMap_points_back_witness:
  "prior_sound find_prior_longest [0, 1, 2, 3, 4, 5, 1, 2, 3, 4, 6]
   \<and> (\<exists>lits. parse_run find_prior_longest [0, 1, 2, 3, 4, 5, 1, 2, 3, 4, 6] 0 0
          \<lparr>p_i = 11, p_copyMap = [0, 1, 2, 3, 4, 5, 1, 2, 3, 4, 10],
            p_branchFrequencyMap =
              [[(1, 1)], [(2, 2)], [(3, 2)], [(4, 2)], [(5, 1), (10, 1)], [(1, 1)],
               [], [], [], [], []],
            p_spans =
              [\<lparr>span_subsong = 0, span_channel = 0, span_start = 0, span_length = 6\<rparr>,
               \<lparr>span_subsong = 0, span_channel = 0, span_start = 1, span_length = 4\<rparr>],
            p_currentSpan =
              \<lparr>span_subsong = 0, span_channel = 0, span_start = 10, span_length = 1\<rparr>,
            p_nextSpan =
              \<lparr>span_subsong = 0, span_channel = 0, span_start = 0, span_length = 0\<rparr>\<rparr>
          lits
        \<and> (5 \<in> lits \<longleftrightarrow> [0, 1, 2, 3, 4, 5, 1, 2, 3, 4, 10 :: nat] ! 5 = 5)
        \<and> (6 \<in> lits \<longleftrightarrow> [0, 1, 2, 3, 4, 5, 1, 2, 3, 4, 10 :: nat] ! 6 = 6))"
proof -
  let ?alpha = "[0, 1, 2, 3, 4, 5, 1, 2, 3, 4, 6] :: AlphaChar list"
  have s: "prior_sound find_prior_longest ?alpha"
    by (rule find_prior_longest_sound)
  let ?st = "\<lparr>p_i = 11, p_copyMap = [0, 1, 2, 3, 4, 5, 1, 2, 3, 4, 10],
            p_branchFrequencyMap =
              [[(1, 1)], [(2, 2)], [(3, 2)], [(4, 2)], [(5, 1), (10, 1)], [(1, 1)],
               [], [], [], [], []],
            p_spans =
              [\<lparr>span_subsong = 0, span_channel = 0, span_start = 0, span_length = 6\<rparr>,
               \<lparr>span_subsong = 0, span_channel = 0, span_start = 1, span_length = 4\<rparr>],
            p_currentSpan =
              \<lparr>span_subsong = 0, span_channel = 0, span_start = 10, span_length = 1\<rparr>,
            p_nextSpan =
              \<lparr>span_subsong = 0, span_channel = 0, span_start = 0, span_length = 0\<rparr>\<rparr>"
  have len: "length ?alpha = 11" by simp
  from copyMap_points_back [OF s, of 0 0, unfolded len parse_example]
  obtain lits where run: "parse_run find_prior_longest ?alpha 0 0 ?st lits"
    and iff: "\<forall>p < p_i ?st. p_copyMap ?st ! p = p \<longleftrightarrow> p \<in> lits"
    by (metis sum.inject(2))
  from iff [rule_format, of 5] iff [rule_format, of 6]
  have "5 \<in> lits \<longleftrightarrow> p_copyMap ?st ! 5 = 5" "6 \<in> lits \<longleftrightarrow> p_copyMap ?st ! 6 = 6"
    by simp_all
  with run s show ?thesis by (intro conjI exI [of _ lits]) simp_all
qed

section \<open>Properties of the skip map\<close>

lemma skip_scan_spec:
  assumes "sorted (map fst xs)"
  shows "(let r = skip_scan nx xs mf si;
              others = {x \<in> set xs. fst x \<noteq> nx \<and> snd x > mf}
          in (others = {} \<longrightarrow> r = si)
             \<and> (others \<noteq> {} \<longrightarrow>
                  (\<exists>c. (r, c) \<in> others \<and> (\<forall>x \<in> others. snd x \<le> c)
                       \<and> (\<forall>x \<in> others. snd x = c \<longrightarrow> r \<le> fst x))))"
  using assms
proof (induction xs arbitrary: mf si)
  case Nil
  then show ?case by simp
next
  case (Cons x xs)
  from Cons.prems have srt: "sorted (map fst xs)" and low: "\<forall>y \<in> set xs. fst x \<le> fst y"
    by auto
  show ?case
  proof (cases "fst x \<noteq> nx \<and> snd x > mf")
    case False
    then have same: "{y \<in> set (x # xs). fst y \<noteq> nx \<and> snd y > mf}
        = {y \<in> set xs. fst y \<noteq> nx \<and> snd y > mf}"
      by auto
    from False have r: "skip_scan nx (x # xs) mf si = skip_scan nx xs mf si" by auto
    from Cons.IH [OF srt, of mf si] show ?thesis
      unfolding Let_def same r by blast
  next
    case True
    then have r: "skip_scan nx (x # xs) mf si = skip_scan nx xs (snd x) (fst x)" by simp
    let ?O = "{y \<in> set (x # xs). fst y \<noteq> nx \<and> snd y > mf}"
    let ?O' = "{y \<in> set xs. fst y \<noteq> nx \<and> snd y > snd x}"
    from True have xin: "x \<in> ?O" by simp
    note ih = Cons.IH [OF srt, of "snd x" "fst x", unfolded Let_def]
    have "\<exists>c. (skip_scan nx xs (snd x) (fst x), c) \<in> ?O \<and> (\<forall>y \<in> ?O. snd y \<le> c)
            \<and> (\<forall>y \<in> ?O. snd y = c \<longrightarrow> skip_scan nx xs (snd x) (fst x) \<le> fst y)"
    proof (cases "?O' = {}")
      case True
      with ih have e: "skip_scan nx xs (snd x) (fst x) = fst x" by blast
      have "\<forall>y \<in> ?O. snd y \<le> snd x" using True by force
      moreover have "\<forall>y \<in> ?O. fst x \<le> fst y" using low by auto
      ultimately show ?thesis using xin unfolding e by (intro exI [of _ "snd x"]) auto
    next
      case False
      with ih obtain c where c: "(skip_scan nx xs (snd x) (fst x), c) \<in> ?O'"
        and mx: "\<forall>y \<in> ?O'. snd y \<le> c"
        and tie: "\<forall>y \<in> ?O'. snd y = c \<longrightarrow> skip_scan nx xs (snd x) (fst x) \<le> fst y"
        by blast
      from c have gt: "snd x < c" by simp
      have 1: "(skip_scan nx xs (snd x) (fst x), c) \<in> ?O" using c True by auto
      have 2: "\<forall>y \<in> ?O. snd y \<le> c"
      proof
        fix y assume "y \<in> ?O"
        then consider "y = x" | "y \<in> ?O'" | "y \<in> set xs" "snd y \<le> snd x" by force
        then show "snd y \<le> c"
        proof cases
          case 1
          with gt show ?thesis by simp
        next
          case 2
          with mx show ?thesis by blast
        next
          case 3
          with gt show ?thesis by simp
        qed
      qed
      have 3: "\<forall>y \<in> ?O. snd y = c \<longrightarrow> skip_scan nx xs (snd x) (fst x) \<le> fst y"
      proof (intro ballI impI)
        fix y assume "y \<in> ?O" "snd y = c"
        with gt have "y \<in> ?O'" by auto
        with tie \<open>snd y = c\<close> show "skip_scan nx xs (snd x) (fst x) \<le> fst y" by blast
      qed
      from 1 2 3 show ?thesis by blast
    qed
    with xin show ?thesis unfolding Let_def r by blast
  qed
qed

lemma build_skipMap_nth:
  assumes "src < length branchFrequencyMap"
    and "sorted (map fst (branchFrequencyMap ! src))"
  shows "(let k = build_skipMap past_end copyMap branchFrequencyMap ! src;
              others = {x \<in> set (branchFrequencyMap ! src). fst x \<noteq> src + 1 \<and> snd x > 0}
          in (others = {} \<longrightarrow>
                k = (if src + 1 < length copyMap then copyMap ! (src + 1) else past_end))
             \<and> (others \<noteq> {} \<longrightarrow>
                  (\<exists>c. (k, c) \<in> others \<and> (\<forall>x \<in> others. snd x \<le> c)
                       \<and> (\<forall>x \<in> others. snd x = c \<longrightarrow> k \<le> fst x))))"
  using skip_scan_spec [OF assms(2), of "src + 1" 0] assms(1)
  by (simp add: build_skipMap_def Let_def)

text \<open>
  Claim C4, amended.  For every position \<open>src\<close> but the last, \<open>skipMap[src]\<close> is the
  successor with the highest count in \<open>branchFrequencyMap[src]\<close> among the successors
  other than \<open>src + 1\<close> (the lowest such successor when several share that count);
  when the table holds no successor other than \<open>src + 1\<close> it is \<open>copyMap[src + 1]\<close>.
  The last position is left out: there \<open>copyMap[src + 1]\<close> lies past the end of the
  vector.
\<close>

theorem skipMap_entry:
  assumes "src + 1 < length copyMap"
    and "src < length branchFrequencyMap"
    and "sorted (map fst (branchFrequencyMap ! src))"
  shows "(let k = build_skipMap past_end copyMap branchFrequencyMap ! src;
              others = {x \<in> set (branchFrequencyMap ! src). fst x \<noteq> src + 1 \<and> snd x > 0}
          in (others = {} \<longrightarrow> k = copyMap ! (src + 1))
             \<and> (others \<noteq> {} \<longrightarrow>
                  (\<exists>c. (k, c) \<in> others \<and> (\<forall>x \<in> others. snd x \<le> c)
                       \<and> (\<forall>x \<in> others. snd x = c \<longrightarrow> k \<le> fst x))))"
  using skip_scan_spec [OF assms(3), of "src + 1" 0] assms(1,2)
  by (simp add: build_skipMap_def Let_def)

theorem skipMap_entry_witness:
  "4 + 1 < length [0, 1, 2, 3, 4, 5, 1, 2, 3, 4, 10 :: nat]
   \<and> 4 < length ([[(1, 1)], [(2, 2)], [(3, 2)], [(4, 2)], [(5, 1), (10, 1)], [(1, 1)],
               [], [], [], [], []] :: BranchTable list)
   \<and> sorted (map fst ([[(1, 1)], [(2, 2)], [(3, 2)], [(4, 2)], [(5, 1), (10, 1)], [(1, 1)],
               [], [], [], [], []] ! 4 :: BranchTable))
   \<and> build_skipMap 0 [0, 1, 2, 3, 4, 5, 1, 2, 3, 4, 10]
         [[(1, 1)], [(2, 2)], [(3, 2)], [(4, 2)], [(5, 1), (10, 1)], [(1, 1)],
          [], [], [], [], []] ! 4 = 10"
proof -
  let ?b = "[[(1, 1)], [(2, 2)], [(3, 2)], [(4, 2)], [(5, 1), (10, 1)], [(1, 1)],
               [], [], [], [], []] :: BranchTable list"
  have 0: "4 + 1 < length [0, 1, 2, 3, 4, 5, 1, 2, 3, 4, 10 :: nat]" by simp
  have 1: "4 < length ?b" by simp
  have 2: "sorted (map fst (?b ! 4))" by simp
  have o: "{x \<in> set (?b ! 4). fst x \<noteq> 4 + 1 \<and> snd x > 0} = {(10, 1)}" by auto
  from skipMap_entry [OF 0 1 2, of 0]
  have "build_skipMap 0 [0, 1, 2, 3, 4, 5, 1, 2, 3, 4, 10] ?b ! 4 = 10"
    unfolding Let_def o by simp
  with 0 1 2 show ?thesis by blast
qed

text \<open>
  Claim C4 as stated fails where a literal position is followed by a
  back-reference: in \<open>x a b c d y a b c d STOP\<close> the table of position 5 has the
  single entry 1, and \<open>skipMap[5]\<close> is 1, not \<open>5 + 1\<close>.
\<close>

theorem skipMap_follows_single_entry:
  "greedy_parse find_prior_longest [0, 1, 2, 3, 4, 5, 1, 2, 3, 4, 6] (parse_init 0 0 11)
     = Inr \<lparr>p_i = 11, p_copyMap = [0, 1, 2, 3, 4, 5, 1, 2, 3, 4, 10],
            p_branchFrequencyMap =
              [[(1, 1)], [(2, 2)], [(3, 2)], [(4, 2)], [(5, 1), (10, 1)], [(1, 1)],
               [], [], [], [], []],
            p_spans =
              [\<lparr>span_subsong = 0, span_channel = 0, span_start = 0, span_length = 6\<rparr>,
               \<lparr>span_subsong = 0, span_channel = 0, span_start = 1, span_length = 4\<rparr>],
            p_currentSpan =
              \<lparr>span_subsong = 0, span_channel = 0, span_start = 10, span_length = 1\<rparr>,
            p_nextSpan =
              \<lparr>span_subsong = 0, span_channel = 0, span_start = 0, span_length = 0\<rparr>\<rparr>
   \<and> length ([[(1, 1)], [(2, 2)], [(3, 2)], [(4, 2)], [(5, 1), (10, 1)], [(1, 1)],
               [], [], [], [], []] ! 5 :: BranchTable) < 2
   \<and> build_skipMap 0 [0, 1, 2, 3, 4, 5, 1, 2, 3, 4, 10]
         [[(1, 1)], [(2, 2)], [(3, 2)], [(4, 2)], [(5, 1), (10, 1)], [(1, 1)],
          [], [], [], [], []] ! 5 = 1
   \<and> (1 :: nat) \<noteq> 5 + 1"
  by (simp add: parse_example) code_simp

section \<open>Properties of the control-flow rewriter\<close>

lemma table_successor:
  assumes inv: "map_inv alpha (length alpha) cm b" and a: "a < length alpha"
    and x: "x \<in> set (b ! a)"
  shows "\<exists>p. Suc p < length alpha \<and> cm ! p = a \<and> cm ! Suc p = fst x \<and> a \<le> p"
proof -
  from inv a have keys: "fst ` set (b ! a) = {cm ! Suc p | p. Suc p < length alpha \<and> cm ! p = a}"
    and le: "\<forall>p < length alpha. cm ! p \<le> p"
    by (simp_all add: map_inv_def)
  from x have "fst x \<in> fst ` set (b ! a)" by simp
  with keys obtain p where p: "Suc p < length alpha" "cm ! p = a" "cm ! Suc p = fst x"
    by auto
  with le have "a \<le> p" by (metis Suc_lessD)
  with p show ?thesis by blast
qed

lemma skip_not_neighbour:
  assumes inv: "map_inv alpha (length alpha) cm b" and a: "a < length alpha"
    and two: "2 \<le> length (b ! a)"
  shows "build_skipMap past_end cm b ! a \<noteq> a + 1"
proof -
  from inv a have srt: "sorted (map fst (b ! a))" and dst: "distinct (map fst (b ! a))"
    and pos: "\<forall>x \<in> set (b ! a). snd x > 0" and lb: "length b = length alpha"
    by (simp_all add: map_inv_def)
  from two obtain x y t where t: "b ! a = x # y # t"
    by (cases "b ! a"; cases "tl (b ! a)") auto
  with dst have "fst x \<noteq> fst y" by simp
  then have "fst x \<noteq> a + 1 \<or> fst y \<noteq> a + 1" by auto
  moreover have "x \<in> set (b ! a)" "y \<in> set (b ! a)" using t by simp_all
  ultimately obtain z where z: "z \<in> set (b ! a)" "fst z \<noteq> a + 1" by blast
  with pos have "z \<in> {x \<in> set (b ! a). fst x \<noteq> a + 1 \<and> snd x > 0}" by simp
  then have ne: "{x \<in> set (b ! a). fst x \<noteq> a + 1 \<and> snd x > 0} \<noteq> {}" by blast
  from build_skipMap_nth [of a b, OF _ srt, of past_end cm] a lb ne
  show ?thesis unfolding Let_def by auto
qed

lemma sustain_not_stop: "CODE_SUSTAIN d \<noteq> CODE_STOP"
proof
  assume "CODE_SUSTAIN d = CODE_STOP"
  then have "GET_CODE_TYPE (CODE_SUSTAIN d) = GET_CODE_TYPE CODE_STOP" by simp
  moreover have "GET_CODE_TYPE CODE_STOP = 0" by (simp add: GET_CODE_TYPE_def CODE_STOP_def)
  ultimately show False by (simp only: type_SUSTAIN) simp
qed

lemma stop_only_last:
  assumes "CODE_STOP \<notin> set cs"
  shows "\<forall>p < length (cs @ [CODE_STOP]).
           (cs @ [CODE_STOP]) ! p = CODE_STOP \<longrightarrow> Suc p = length (cs @ [CODE_STOP])"
proof (intro allI impI)
  fix p
  assume p: "p < length (cs @ [CODE_STOP])" and e: "(cs @ [CODE_STOP]) ! p = CODE_STOP"
  show "Suc p = length (cs @ [CODE_STOP])"
  proof (cases "p < length cs")
    case True
    with e have "cs ! p = CODE_STOP" by (simp add: nth_append)
    with True assms show ?thesis using nth_mem [of p cs] by simp
  next
    case False
    with p show ?thesis by simp
  qed
qed

lemma example_codes_stop_last:
  "\<forall>p < length [CODE_SUSTAIN 9, CODE_SUSTAIN 1, CODE_SUSTAIN 2, CODE_SUSTAIN 3, CODE_SUSTAIN 4,
                   CODE_SUSTAIN 5, CODE_SUSTAIN 1, CODE_SUSTAIN 2, CODE_SUSTAIN 3, CODE_SUSTAIN 4,
                   CODE_STOP].
     [CODE_SUSTAIN 9, CODE_SUSTAIN 1, CODE_SUSTAIN 2, CODE_SUSTAIN 3, CODE_SUSTAIN 4,
      CODE_SUSTAIN 5, CODE_SUSTAIN 1, CODE_SUSTAIN 2, CODE_SUSTAIN 3, CODE_SUSTAIN 4,
      CODE_STOP] ! p = CODE_STOP
     \<longrightarrow> Suc p = length [CODE_SUSTAIN 9, CODE_SUSTAIN 1, CODE_SUSTAIN 2, CODE_SUSTAIN 3,
                          CODE_SUSTAIN 4, CODE_SUSTAIN 5, CODE_SUSTAIN 1, CODE_SUSTAIN 2,
                          CODE_SUSTAIN 3, CODE_SUSTAIN 4, CODE_STOP]"
proof -
  have "CODE_STOP \<notin> set [CODE_SUSTAIN 9, CODE_SUSTAIN 1, CODE_SUSTAIN 2, CODE_SUSTAIN 3,
      CODE_SUSTAIN 4, CODE_SUSTAIN 5, CODE_SUSTAIN 1, CODE_SUSTAIN 2, CODE_SUSTAIN 3,
      CODE_SUSTAIN 4]"
    by (simp add: sustain_not_stop [symmetric])
  from stop_only_last [OF this] show ?thesis by simp
qed

subsection \<open>The span list of the parse\<close>

lemma span_walk_append:
  "span_walk cm e (xs @ ys) \<longleftrightarrow>
     span_walk cm e xs \<and> span_walk cm (e + sum_list (map span_length xs)) ys"
  by (induction xs arbitrary: e) (simp_all add: ac_simps)

lemma span_walk_cong:
  assumes "\<forall>p < e + sum_list (map span_length xs). cm' ! p = cm ! p"
  shows "span_walk cm' e xs = span_walk cm e xs"
  using assms
proof (induction xs arbitrary: e)
  case Nil
  show ?case by simp
next
  case (Cons s xs)
  from Cons.prems have here: "\<forall>p \<in> set [e..<e + span_length s]. cm' ! p = cm ! p"
    by simp
  from Cons.prems have "\<forall>p < e + span_length s + sum_list (map span_length xs). cm' ! p = cm ! p"
    by (simp add: ac_simps)
  from Cons.IH [OF this] here show ?case by simp
qed

lemma parse_run_spans:
  assumes "parse_run find_prior alpha subsong channel st lits"
    and sound: "prior_sound find_prior alpha"
  shows "span_walk (p_copyMap st) 0 (p_spans st)
         \<and> sum_list (map span_length (p_spans st)) = span_start (p_currentSpan st)
         \<and> span_start (p_currentSpan st) + span_length (p_currentSpan st) = p_i st
         \<and> (\<forall>p. span_start (p_currentSpan st) \<le> p \<and> p < p_i st \<longrightarrow> p_copyMap st ! p = p)"
  using assms(1)
proof (induction rule: parse_run.induct)
  case start
  show ?case by (simp add: parse_init_def)
next
  case (literal st lits st')
  note inv = parse_run_inv [OF literal.hyps(1) sound, THEN conjunct1]
  then have len: "length (p_copyMap st) = length alpha" by (simp add: map_inv_def)
  from parse_iteration_literal [of alpha st find_prior, OF inv literal.hyps(2) literal.hyps(3)]
    literal.hyps(4)
  have i': "p_i st' = Suc (p_i st)"
    and cm': "p_copyMap st' = (p_copyMap st)[p_i st := p_i st]"
    and sp': "p_spans st' = p_spans st"
    and cur': "p_currentSpan st' = (p_currentSpan st)
                 \<lparr>span_length := span_length (p_currentSpan st) + 1\<rparr>"
    by auto
  from literal.IH have walk: "span_walk (p_copyMap st) 0 (p_spans st)"
    and total: "sum_list (map span_length (p_spans st)) = span_start (p_currentSpan st)"
    and cur: "span_start (p_currentSpan st) + span_length (p_currentSpan st) = p_i st"
    and lit: "\<forall>p. span_start (p_currentSpan st) \<le> p \<and> p < p_i st \<longrightarrow> p_copyMap st ! p = p"
    by simp_all
  have "\<forall>p < 0 + sum_list (map span_length (p_spans st)). p_copyMap st' ! p = p_copyMap st ! p"
    unfolding cm' using total cur by simp
  from span_walk_cong [OF this] walk have 1: "span_walk (p_copyMap st') 0 (p_spans st')"
    by (simp add: sp')
  have 4: "\<forall>p. span_start (p_currentSpan st') \<le> p \<and> p < p_i st' \<longrightarrow> p_copyMap st' ! p = p"
    unfolding i' cm' cur' using lit literal.hyps(2) len
    by (auto simp add: nth_list_update less_Suc_eq)
  from 1 4 total cur show ?case by (simp add: sp' cur' i')
next
  case (back_reference st lits st')
  note inv = parse_run_inv [OF back_reference.hyps(1) sound, THEN conjunct1]
  let ?r = "find_prior (p_i st) alpha (p_nextSpan st)"
  from sound back_reference.hyps(2,3) have s: "span_start ?r < p_i st"
    unfolding prior_sound_def Let_def by blast
  from parse_iteration_back_reference
         [of alpha st find_prior, OF inv back_reference.hyps(2) sound back_reference.hyps(3)]
    back_reference.hyps(4)
  have i': "p_i st' = p_i st + span_length ?r"
    and sp': "p_spans st' =
               (if span_length (p_currentSpan st) > 0 then p_spans st @ [p_currentSpan st]
                else p_spans st) @ [?r]"
    and cur': "p_currentSpan st' = (p_currentSpan st)\<lparr>span_start := p_i st', span_length := 0\<rparr>"
    and keep: "\<forall>p < p_i st. p_copyMap st' ! p = p_copyMap st ! p"
    and below: "\<forall>p. p_i st \<le> p \<and> p < p_i st' \<longrightarrow> p_copyMap st' ! p < p"
    by auto
  from back_reference.IH have walk: "span_walk (p_copyMap st) 0 (p_spans st)"
    and total: "sum_list (map span_length (p_spans st)) = span_start (p_currentSpan st)"
    and cur: "span_start (p_currentSpan st) + span_length (p_currentSpan st) = p_i st"
    and lit: "\<forall>p. span_start (p_currentSpan st) \<le> p \<and> p < p_i st \<longrightarrow> p_copyMap st ! p = p"
    by simp_all
  let ?old = "if span_length (p_currentSpan st) > 0 then p_spans st @ [p_currentSpan st]
              else p_spans st"
  have tot_old: "sum_list (map span_length ?old) = p_i st"
    using total cur by simp
  have walk_old: "span_walk (p_copyMap st) 0 ?old"
    using walk total lit cur by (simp add: span_walk_append)
  have "\<forall>p < 0 + sum_list (map span_length ?old). p_copyMap st' ! p = p_copyMap st ! p"
    using keep tot_old by simp
  from span_walk_cong [OF this] walk_old have w1: "span_walk (p_copyMap st') 0 ?old"
    by simp
  have w2: "span_walk (p_copyMap st') (p_i st) [?r]"
    using s back_reference.hyps(3) below i' by auto
  have 1: "span_walk (p_copyMap st') 0 (p_spans st')"
    unfolding sp' span_walk_append using w1 w2 tot_old by simp
  have 2: "sum_list (map span_length (p_spans st')) = span_start (p_currentSpan st')"
    unfolding sp' cur' using tot_old i' by simp
  from 1 2 show ?case by (simp add: cur')
qed

lemma final_spans_walk:
  assumes "parse_run find_prior alpha subsong channel st lits"
    and sound: "prior_sound find_prior alpha"
  shows "span_walk (p_copyMap st) 0 (final_spans st)
         \<and> sum_list (map span_length (final_spans st)) = p_i st"
  using parse_run_spans [OF assms]
  by (auto simp add: final_spans_def span_walk_append)

subsection \<open>The rewriter, position by position\<close>

lemma rewrite_position_step:
  assumes n: "length (e_copyMap env) = n" "length (e_branchFrequencyMap env) = n"
      "length (e_skipMap env) = n" "length (e_codeSequence env) = n"
    and le: "\<forall>p < n. e_copyMap env ! p \<le> p"
    and stop: "\<forall>p < n. e_codeSequence env ! p = CODE_STOP \<longrightarrow> Suc p = n"
    and e: "Suc e < n"
    and flag: "repeatSpan \<longleftrightarrow> e_copyMap env ! e \<noteq> e" and i: "\<not> repeatSpan \<longrightarrow> i = e"
    and inv: "rewriter_inv env e st" and en: "r_end st = e"
  shows "\<exists>st'. rewrite_position env repeatSpan i st = Inr (False, st')
           \<and> rewriter_inv env (Suc e) st' \<and> r_end st' = Suc e"
proof -
  from inv have ll: "length (r_labels st) = n"
    and d: "r_compressedCodeSequence st = concat (map (rewriter_data_at env) [0..<e])"
    and s: "r_spanSequence st = concat (map (rewriter_span_at env) [0..<e])"
    and lab: "\<forall>p < e. e_copyMap env ! p = p \<longrightarrow>
            r_labels st ! p = length (concat (map (rewriter_data_at env) [0..<p]))"
    by (simp_all add: rewriter_inv_def n)
  from e have e0: "e < n" by simp
  from le e0 have lm: "e_copyMap env ! e < n" by (meson le_less_trans)
  have ns: "e_codeSequence env ! e \<noteq> CODE_STOP"
  proof
    assume "e_codeSequence env ! e = CODE_STOP"
    with stop e0 have "Suc e = n" by simp
    with e show False by simp
  qed
  show ?thesis
  proof (cases repeatSpan)
    case True
    with flag have nl: "e_copyMap env ! e \<noteq> e" by simp
    have da: "rewriter_data_at env e = []" using nl by (simp add: rewriter_data_at_def)
    show ?thesis
      unfolding rewrite_position_def rewriter_inv_def
      using True nl e e0 lm lab
      by (auto simp add: n en Let_def d s ll da rewriter_span_at_def less_Suc_eq)
  next
    case False
    with flag i have l: "e_copyMap env ! e = e" and ie: "i = e" by simp_all
    show ?thesis
      unfolding rewrite_position_def rewriter_inv_def
      using False l ie e e0 ns lab
      by (auto simp add: n en Let_def d s ll rewriter_data_at_def rewriter_span_at_def
            less_Suc_eq nth_list_update)
  qed
qed


lemma rewrite_position_last:
  assumes n: "length (e_copyMap env) = n" "length (e_branchFrequencyMap env) = n"
      "length (e_skipMap env) = n" "length (e_codeSequence env) = n"
    and e: "Suc e = n"
    and last: "e_codeSequence env ! e = CODE_STOP" "e_copyMap env ! e = e"
    and inv: "rewriter_inv env e st" and en: "r_end st = e"
  shows "\<exists>st'. rewrite_position env False e st = Inr (True, st') \<and> rewriter_inv env n st'"
proof -
  from inv have ll: "length (r_labels st) = n"
    and d: "r_compressedCodeSequence st = concat (map (rewriter_data_at env) [0..<e])"
    and s: "r_spanSequence st = concat (map (rewriter_span_at env) [0..<e])"
    and lab: "\<forall>p < e. e_copyMap env ! p = p \<longrightarrow>
            r_labels st ! p = length (concat (map (rewriter_data_at env) [0..<p]))"
    by (simp_all add: rewriter_inv_def n)
  from e have e0: "e < n" by simp
  show ?thesis
    unfolding rewrite_position_def rewriter_inv_def e [symmetric]
    using last e0 lab
    by (auto simp add: n en Let_def d s ll rewriter_data_at_def rewriter_span_at_def
          less_Suc_eq nth_list_update)
qed

lemma rewrite_literal_span:
  assumes n: "length (e_copyMap env) = n" "length (e_branchFrequencyMap env) = n"
      "length (e_skipMap env) = n" "length (e_codeSequence env) = n"
    and le: "\<forall>p < n. e_copyMap env ! p \<le> p"
    and stop: "\<forall>p < n. e_codeSequence env ! p = CODE_STOP \<longleftrightarrow> Suc p = n"
    and E: "E \<le> n"
  shows "e \<le> E \<Longrightarrow> \<forall>p. e \<le> p \<and> p < E \<longrightarrow> e_copyMap env ! p = p \<Longrightarrow>
         rewriter_inv env e st \<Longrightarrow> r_end st = e \<Longrightarrow>
         \<exists>st'. rewrite_span_loop env False e E st = Inr st'
               \<and> (if E = n then rewriter_inv env n st'
                   else rewriter_inv env E st' \<and> r_end st' = E)"
proof (induction "E - e" arbitrary: e st)
  case 0
  then have "e = E" by simp
  with "0.prems" show ?case by (auto simp add: rewrite_span_loop.simps)
next
  case (Suc d)
  then have eE: "e < E" and d: "d = E - Suc e" and le': "Suc e \<le> E" by simp_all
  from Suc.prems(2) eE have lit: "e_copyMap env ! e = e" by simp
  from Suc.prems(2) have rest: "\<forall>p. Suc e \<le> p \<and> p < E \<longrightarrow> e_copyMap env ! p = p" by simp
  from stop have stop': "\<forall>p < n. e_codeSequence env ! p = CODE_STOP \<longrightarrow> Suc p = n" by simp
  show ?case
  proof (cases "Suc e < n")
    case True
    from rewrite_position_step [OF n le stop' True, of False e st] lit Suc.prems(3,4)
    obtain st' where p: "rewrite_position env False e st = Inr (False, st')"
      and inv': "rewriter_inv env (Suc e) st'" and en': "r_end st' = Suc e"
      by auto
    from Suc.hyps(1) [OF d le' rest inv' en']
    obtain st'' where "rewrite_span_loop env False (Suc e) E st' = Inr st''"
      and "if E = n then rewriter_inv env n st''
           else rewriter_inv env E st'' \<and> r_end st'' = E"
      by blast
    with eE p show ?thesis by (subst rewrite_span_loop.simps) simp
  next
    case False
    with eE E have e: "Suc e = n" and En: "E = n" by simp_all
    from stop e have last: "e_codeSequence env ! e = CODE_STOP" by simp
    from rewrite_position_last [OF n e last lit Suc.prems(3,4)]
    obtain st' where "rewrite_position env False e st = Inr (True, st')"
      and "rewriter_inv env n st'"
      by blast
    with eE En show ?thesis by (subst rewrite_span_loop.simps) simp
  qed
qed

lemma rewrite_repeat_span:
  assumes n: "length (e_copyMap env) = n" "length (e_branchFrequencyMap env) = n"
      "length (e_skipMap env) = n" "length (e_codeSequence env) = n"
    and le: "\<forall>p < n. e_copyMap env ! p \<le> p"
    and stop: "\<forall>p < n. e_codeSequence env ! p = CODE_STOP \<longleftrightarrow> Suc p = n"
  shows "e + l < n \<Longrightarrow> \<forall>p. e \<le> p \<and> p < e + l \<longrightarrow> e_copyMap env ! p \<noteq> p \<Longrightarrow>
         rewriter_inv env e st \<Longrightarrow> r_end st = e \<Longrightarrow>
         \<exists>st'. rewrite_span_loop env True i (i + l) st = Inr st'
               \<and> rewriter_inv env (e + l) st' \<and> r_end st' = e + l"
proof (induction l arbitrary: e i st)
  case 0
  then show ?case by (simp add: rewrite_span_loop.simps)
next
  case (Suc l)
  from Suc.prems(1) have e: "Suc e < n" and el: "Suc e + l < n" by simp_all
  from Suc.prems(2) have nl: "e_copyMap env ! e \<noteq> e"
    and rest: "\<forall>p. Suc e \<le> p \<and> p < Suc e + l \<longrightarrow> e_copyMap env ! p \<noteq> p" by simp_all
  from stop have stop': "\<forall>p < n. e_codeSequence env ! p = CODE_STOP \<longrightarrow> Suc p = n" by simp
  from rewrite_position_step [OF n le stop' e, of True i st] nl Suc.prems(3,4)
  obtain st' where p: "rewrite_position env True i st = Inr (False, st')"
    and inv': "rewriter_inv env (Suc e) st'" and en': "r_end st' = Suc e"
    by auto
  from Suc.IH [OF el rest inv' en', of "Suc i"]
  obtain st'' where "rewrite_span_loop env True (Suc i) (Suc i + l) st' = Inr st''"
    and "rewriter_inv env (Suc e + l) st''" and "r_end st'' = Suc e + l"
    by blast
  with p show ?case by (subst rewrite_span_loop.simps) simp
qed

lemma span_walk_empty:
  "span_walk cm e spans \<Longrightarrow> sum_list (map span_length spans) = 0 \<Longrightarrow> spans = []"
  by (cases spans) auto

lemma rewrite_spans_inv:
  assumes n: "length (e_copyMap env) = n" "length (e_branchFrequencyMap env) = n"
      "length (e_skipMap env) = n" "length (e_codeSequence env) = n"
    and le: "\<forall>p < n. e_copyMap env ! p \<le> p"
    and stop: "\<forall>p < n. e_codeSequence env ! p = CODE_STOP \<longleftrightarrow> Suc p = n"
    and lastlit: "e_copyMap env ! (n - 1) = n - 1"
  shows "span_walk (e_copyMap env) e spans \<Longrightarrow> e + sum_list (map span_length spans) = n \<Longrightarrow>
         e < n \<Longrightarrow> rewriter_inv env e st \<Longrightarrow> r_end st = e \<Longrightarrow>
         \<exists>st'. rewrite_spans env spans st = Inr st' \<and> rewriter_inv env n st'"
proof (induction spans arbitrary: e st)
  case Nil
  then show ?case by simp
next
  case (Cons s ss)
  let ?l = "span_length s"
  from Cons.prems(1) have l: "?l > 0" and walk': "span_walk (e_copyMap env) (e + ?l) ss"
    by simp_all
  from Cons.prems(2) have tot': "e + ?l + sum_list (map span_length ss) = n" by simp
  then have En: "e + ?l \<le> n" by simp
  show ?case
  proof (cases "span_start s < e")
    case True
    with Cons.prems(1) have nl: "\<forall>p. e \<le> p \<and> p < e + ?l \<longrightarrow> e_copyMap env ! p \<noteq> p"
      by simp
    have lt: "e + ?l < n"
    proof (rule ccontr)
      assume "\<not> e + ?l < n"
      with En have "e + ?l = n" by simp
      with l Cons.prems(3) have "e \<le> n - 1 \<and> n - 1 < e + ?l" by simp
      with nl lastlit show False by blast
    qed
    from rewrite_repeat_span [OF n le stop lt nl Cons.prems(4,5), of "span_start s"]
    obtain st' where loop: "rewrite_span_loop env True (span_start s) (span_start s + ?l) st = Inr st'"
      and inv': "rewriter_inv env (e + ?l) st'" and en': "r_end st' = e + ?l"
      by blast
    from Cons.IH [OF walk' tot' lt inv' en']
    obtain st'' where "rewrite_spans env ss st' = Inr st''" and "rewriter_inv env n st''"
      by blast
    with loop True Cons.prems(5) show ?thesis by (simp add: Let_def)
  next
    case False
    with Cons.prems(1) have st: "span_start s = e"
      and lit: "\<forall>p. e \<le> p \<and> p < e + ?l \<longrightarrow> e_copyMap env ! p = p"
      by simp_all
    have ele: "e \<le> e + ?l" by simp
    from rewrite_literal_span [OF n le stop En ele lit Cons.prems(4,5)]
    obtain st' where loop: "rewrite_span_loop env False e (e + ?l) st = Inr st'"
      and res: "if e + ?l = n then rewriter_inv env n st'
                else rewriter_inv env (e + ?l) st' \<and> r_end st' = e + ?l"
      by blast
    show ?thesis
    proof (cases "e + ?l = n")
      case True
      with tot' have "sum_list (map span_length ss) = 0" by simp
      with walk' have "ss = []" by (rule span_walk_empty)
      with loop res True st Cons.prems(5) show ?thesis by (simp add: Let_def)
    next
      case neq: False
      with En have lt: "e + ?l < n" by simp
      from res neq have inv': "rewriter_inv env (e + ?l) st'" and en': "r_end st' = e + ?l"
        by simp_all
      from Cons.IH [OF walk' tot' lt inv' en']
      obtain st'' where "rewrite_spans env ss st' = Inr st''" and "rewriter_inv env n st''"
        by blast
      with loop st Cons.prems(5) show ?thesis by (simp add: Let_def)
    qed
  qed
qed

lemma to_alphaSequence_nth:
  "to_alphaSequence index cs = Inr alpha \<Longrightarrow>
     length alpha = length cs \<and> (\<forall>p < length cs. index (cs ! p) = Some (alpha ! p))"
proof (induction cs arbitrary: alpha)
  case Nil
  then show ?case by simp
next
  case (Cons c cs)
  from Cons.prems obtain a as where a: "index c = Some a"
    and r: "to_alphaSequence index cs = Inr as" and al: "alpha = a # as"
    by (auto split: option.splits sum.splits)
  from Cons.IH [OF r] a show ?case unfolding al by (auto simp add: nth_Cons')
qed

text \<open>
  Claim C5.  Take a code sequence that ends in its only \<open>CODE_STOP\<close>, an index that
  gives \<open>CODE_STOP\<close> a character of its own, and a sound \<open>find_prior\<close>.  The parse
  succeeds, and on its copy map, branch tables, skip map and span list the rewriter
  \<open>rewrite_spans\<close> succeeds: its data stream and its span stream are the
  concatenation, over the positions in order, of what each position writes.  At every
  literal position \<open>i\<close> whose branch table has at least two entries the data written
  is the code itself, \<open>CODE_BRANCH_POINT\<close> and \<open>CODE_JUMP(skipMap[i])\<close>, starting at
  \<open>labels[i]\<close>; the span stream receives exactly one of: \<open>CODE_TAKE_DATA_JUMP\<close>
  when the successor \<open>copyMap[i + 1]\<close> is \<open>skipMap[i]\<close>; \<open>CODE_SKIP\<close> when it is
  \<open>i + 1\<close>; otherwise \<open>CODE_TAKE_TRACK_JUMP\<close> followed by \<open>CODE_JUMP\<close> of the
  successor.  The first two cases exclude each other, because \<open>skipMap[i]\<close> is never
  \<open>i + 1\<close> there.
\<close>

theorem rewriter_branch_point_at_literal_position:
  assumes sound: "prior_sound find_prior alphaSequence"
    and alpha: "to_alphaSequence index codeSequence = Inr alphaSequence"
    and stop: "\<forall>p < length codeSequence.
                 codeSequence ! p = CODE_STOP \<longleftrightarrow> Suc p = length codeSequence"
    and own: "\<forall>c \<in> set codeSequence. index c = index CODE_STOP \<longrightarrow> c = CODE_STOP"
  shows "\<exists>parsed rw.
      greedy_parse find_prior alphaSequence
        (parse_init subsong channel (length alphaSequence)) = Inr parsed
      \<and> (let copyMap = p_copyMap parsed;
              branchFrequencyMap = p_branchFrequencyMap parsed;
              skipMap = build_skipMap past_end copyMap branchFrequencyMap;
              env = \<lparr>e_subsong = subsong, e_channel = channel,
                      e_codeSequence = codeSequence, e_copyMap = copyMap,
                      e_branchFrequencyMap = branchFrequencyMap, e_skipMap = skipMap\<rparr>
          in rewrite_spans env (final_spans parsed)
               \<lparr>r_compressedCodeSequence = [], r_spanSequence = [],
                r_labels = replicate (length alphaSequence) 0, r_end = 0,
                r_lastJumpAddress = 0, r_totalGoto = 0\<rparr> = Inr rw
             \<and> r_compressedCodeSequence rw
                 = concat (map (rewriter_data_at env) [0..<length alphaSequence])
             \<and> r_spanSequence rw
                 = concat (map (rewriter_span_at env) [0..<length alphaSequence])
             \<and> (\<forall>i < length alphaSequence.
                   copyMap ! i = i \<and> 2 \<le> length (branchFrequencyMap ! i) \<longrightarrow>
                     skipMap ! i \<noteq> i + 1
                     \<and> r_labels rw ! i = length (concat (map (rewriter_data_at env) [0..<i]))
                     \<and> rewriter_data_at env i
                         = [codeSequence ! i, CODE_BRANCH_POINT,
                            CODE_JUMP subsong channel (skipMap ! i)]
                     \<and> rewriter_span_at env i
                         = (if copyMap ! (i + 1) = skipMap ! i then [CODE_TAKE_DATA_JUMP]
                            else if copyMap ! (i + 1) = i + 1 then [CODE_SKIP]
                            else [CODE_TAKE_TRACK_JUMP,
                                  CODE_JUMP subsong channel (copyMap ! (i + 1))])))"
proof -
  let ?n = "length alphaSequence"
  from to_alphaSequence_nth [OF alpha]
  have len: "?n = length codeSequence"
    and idx: "\<forall>p < length codeSequence. index (codeSequence ! p) = Some (alphaSequence ! p)"
    by simp_all
  from greedy_parse_runs [OF sound parse_run.start, of subsong channel]
  obtain parsed lits where gp: "greedy_parse find_prior alphaSequence
        (parse_init subsong channel ?n) = Inr parsed"
    and run: "parse_run find_prior alphaSequence subsong channel parsed lits"
    and fin: "p_i parsed = ?n"
    by blast
  define cm where "cm = p_copyMap parsed"
  define bfm where "bfm = p_branchFrequencyMap parsed"
  define sk where "sk = build_skipMap past_end cm bfm"
  define env where "env = \<lparr>e_subsong = subsong, e_channel = channel,
                      e_codeSequence = codeSequence, e_copyMap = cm,
                      e_branchFrequencyMap = bfm, e_skipMap = sk\<rparr>"
  define init where "init = \<lparr>r_compressedCodeSequence = [], r_spanSequence = [],
                r_labels = replicate ?n 0, r_end = 0,
                r_lastJumpAddress = 0, r_totalGoto = 0\<rparr>"
  from parse_run_inv [OF run sound] fin
  have inv: "map_inv alphaSequence ?n cm bfm" by (simp add: cm_def bfm_def)
  then have lcm: "length cm = ?n" and lb: "length bfm = ?n"
    and le: "\<forall>p < ?n. cm ! p \<le> p"
    and same: "\<forall>p < ?n. alphaSequence ! (cm ! p) = alphaSequence ! p"
    by (simp_all add: map_inv_def)
  have lsk: "length sk = ?n" by (simp add: sk_def build_skipMap_def lb)
  from final_spans_walk [OF run sound] fin
  have walk: "span_walk cm 0 (final_spans parsed)"
    and total: "0 + sum_list (map span_length (final_spans parsed)) = ?n"
    by (simp_all add: cm_def)
  have n: "length (e_copyMap env) = ?n" "length (e_branchFrequencyMap env) = ?n"
      "length (e_skipMap env) = ?n" "length (e_codeSequence env) = ?n"
    by (simp_all add: env_def lcm lb lsk len)
  have le': "\<forall>p < ?n. e_copyMap env ! p \<le> p" using le by (simp add: env_def)
  have stop': "\<forall>p < ?n. e_codeSequence env ! p = CODE_STOP \<longleftrightarrow> Suc p = ?n"
    using stop by (simp add: env_def len)
  have inv0: "rewriter_inv env 0 init"
    by (simp add: rewriter_inv_def init_def env_def lcm)
  have "\<exists>rw. rewrite_spans env (final_spans parsed) init = Inr rw \<and> rewriter_inv env ?n rw"
  proof (cases "?n = 0")
    case True
    with total walk have "final_spans parsed = []" by (simp add: span_walk_empty)
    with True inv0 show ?thesis by simp
  next
    case False
    then have pos: "0 < ?n" by simp
    then have l1: "?n - 1 < ?n" by simp
    from stop len l1 have "codeSequence ! (?n - 1) = CODE_STOP" by simp
    have "cm ! (?n - 1) < ?n" using le l1 by (meson le_less_trans)
    moreover from same l1 have "alphaSequence ! (cm ! (?n - 1)) = alphaSequence ! (?n - 1)"
      by simp
    ultimately have "index (codeSequence ! (cm ! (?n - 1))) = index (codeSequence ! (?n - 1))"
      using idx l1 len by simp
    with \<open>codeSequence ! (?n - 1) = CODE_STOP\<close> own \<open>cm ! (?n - 1) < ?n\<close> len
    have "codeSequence ! (cm ! (?n - 1)) = CODE_STOP" by simp
    with stop \<open>cm ! (?n - 1) < ?n\<close> len have "Suc (cm ! (?n - 1)) = ?n" by simp
    then have lastlit: "e_copyMap env ! (?n - 1) = ?n - 1" by (simp add: env_def)
    have w: "span_walk (e_copyMap env) 0 (final_spans parsed)" using walk by (simp add: env_def)
    have e0: "r_end init = 0" by (simp add: init_def)
    from rewrite_spans_inv [OF n le' stop' lastlit w total pos inv0 e0]
    show ?thesis .
  qed
  then obtain rw where rs: "rewrite_spans env (final_spans parsed) init = Inr rw"
    and fin_inv: "rewriter_inv env ?n rw"
    by blast
  from fin_inv have d: "r_compressedCodeSequence rw = concat (map (rewriter_data_at env) [0..<?n])"
    and s: "r_spanSequence rw = concat (map (rewriter_span_at env) [0..<?n])"
    and lab: "\<forall>p < ?n. cm ! p = p \<longrightarrow>
            r_labels rw ! p = length (concat (map (rewriter_data_at env) [0..<p]))"
    by (simp_all add: rewriter_inv_def env_def)
  have at: "sk ! i \<noteq> i + 1
          \<and> r_labels rw ! i = length (concat (map (rewriter_data_at env) [0..<i]))
          \<and> rewriter_data_at env i
              = [codeSequence ! i, CODE_BRANCH_POINT, CODE_JUMP subsong channel (sk ! i)]
          \<and> rewriter_span_at env i
              = (if cm ! (i + 1) = sk ! i then [CODE_TAKE_DATA_JUMP]
                 else if cm ! (i + 1) = i + 1 then [CODE_SKIP]
                 else [CODE_TAKE_TRACK_JUMP, CODE_JUMP subsong channel (cm ! (i + 1))])"
    if i: "i < ?n" and lit: "cm ! i = i" and two: "2 \<le> length (bfm ! i)" for i
  proof -
    from two obtain x where "x \<in> set (bfm ! i)" by (cases "bfm ! i") auto
    from table_successor [OF inv i this] have nxt: "Suc i < ?n" by auto
    have ns: "codeSequence ! i \<noteq> CODE_STOP"
    proof
      assume "codeSequence ! i = CODE_STOP"
      with stop i len have "Suc i = ?n" by simp
      with nxt show False by simp
    qed
    have skn: "sk ! i \<noteq> i + 1"
      unfolding sk_def by (rule skip_not_neighbour [OF inv i two])
    from two have t: "\<not> length (bfm ! i) < 2" "1 < length (bfm ! i)" by simp_all
    have da: "rewriter_data_at env i
              = [codeSequence ! i, CODE_BRANCH_POINT, CODE_JUMP subsong channel (sk ! i)]"
      using lit ns t by (simp add: rewriter_data_at_def env_def Let_def)
    have sa: "rewriter_span_at env i
              = (if cm ! (i + 1) = sk ! i then [CODE_TAKE_DATA_JUMP]
                 else if cm ! (i + 1) = i + 1 then [CODE_SKIP]
                 else [CODE_TAKE_TRACK_JUMP, CODE_JUMP subsong channel (cm ! (i + 1))])"
      using lit ns t by (simp add: rewriter_span_at_def env_def Let_def)
    from lab i lit have "r_labels rw ! i = length (concat (map (rewriter_data_at env) [0..<i]))"
      by simp
    with skn da sa show ?thesis by blast
  qed
  have all: "\<forall>i < ?n. cm ! i = i \<and> 2 \<le> length (bfm ! i) \<longrightarrow>
          sk ! i \<noteq> i + 1
          \<and> r_labels rw ! i = length (concat (map (rewriter_data_at env) [0..<i]))
          \<and> rewriter_data_at env i
              = [codeSequence ! i, CODE_BRANCH_POINT, CODE_JUMP subsong channel (sk ! i)]
          \<and> rewriter_span_at env i
              = (if cm ! (i + 1) = sk ! i then [CODE_TAKE_DATA_JUMP]
                 else if cm ! (i + 1) = i + 1 then [CODE_SKIP]
                 else [CODE_TAKE_TRACK_JUMP, CODE_JUMP subsong channel (cm ! (i + 1))])"
  proof (intro allI impI)
    fix i
    assume "i < ?n" and "cm ! i = i \<and> 2 \<le> length (bfm ! i)"
    then show "sk ! i \<noteq> i + 1
          \<and> r_labels rw ! i = length (concat (map (rewriter_data_at env) [0..<i]))
          \<and> rewriter_data_at env i
              = [codeSequence ! i, CODE_BRANCH_POINT, CODE_JUMP subsong channel (sk ! i)]
          \<and> rewriter_span_at env i
              = (if cm ! (i + 1) = sk ! i then [CODE_TAKE_DATA_JUMP]
                 else if cm ! (i + 1) = i + 1 then [CODE_SKIP]
                 else [CODE_TAKE_TRACK_JUMP, CODE_JUMP subsong channel (cm ! (i + 1))])"
      using at [of i] by simp
  qed
  note res = conjI [OF gp conjI [OF rs conjI [OF d conjI [OF s all]]]]
  show ?thesis
    unfolding Let_def
    by (rule exI [of _ parsed], rule exI [of _ rw])
       (rule res [unfolded init_def env_def sk_def bfm_def cm_def])
qed

lemma example_index:
  "to_alphaSequence
     (map_of [(CODE_SUSTAIN 9, 0), (CODE_SUSTAIN 1, 1), (CODE_SUSTAIN 2, 2), (CODE_SUSTAIN 3, 3),
              (CODE_SUSTAIN 4, 4), (CODE_SUSTAIN 5, 5), (CODE_STOP, 6)])
     [CODE_SUSTAIN 9, CODE_SUSTAIN 1, CODE_SUSTAIN 2, CODE_SUSTAIN 3, CODE_SUSTAIN 4,
      CODE_SUSTAIN 5, CODE_SUSTAIN 1, CODE_SUSTAIN 2, CODE_SUSTAIN 3, CODE_SUSTAIN 4, CODE_STOP]
   = Inr [0, 1, 2, 3, 4, 5, 1, 2, 3, 4, 6]"
  by (simp add: CODE_SUSTAIN_def CODE_STOP_def)

lemma example_stop_last:
  "\<forall>p < length [CODE_SUSTAIN 9, CODE_SUSTAIN 1, CODE_SUSTAIN 2, CODE_SUSTAIN 3, CODE_SUSTAIN 4,
                   CODE_SUSTAIN 5, CODE_SUSTAIN 1, CODE_SUSTAIN 2, CODE_SUSTAIN 3, CODE_SUSTAIN 4,
                   CODE_STOP].
     [CODE_SUSTAIN 9, CODE_SUSTAIN 1, CODE_SUSTAIN 2, CODE_SUSTAIN 3, CODE_SUSTAIN 4,
      CODE_SUSTAIN 5, CODE_SUSTAIN 1, CODE_SUSTAIN 2, CODE_SUSTAIN 3, CODE_SUSTAIN 4,
      CODE_STOP] ! p = CODE_STOP
     \<longleftrightarrow> Suc p = length [CODE_SUSTAIN 9, CODE_SUSTAIN 1, CODE_SUSTAIN 2, CODE_SUSTAIN 3,
                          CODE_SUSTAIN 4, CODE_SUSTAIN 5, CODE_SUSTAIN 1, CODE_SUSTAIN 2,
                          CODE_SUSTAIN 3, CODE_SUSTAIN 4, CODE_STOP]"
  using example_codes_stop_last by auto

lemma example_stop_own:
  "\<forall>c \<in> set [CODE_SUSTAIN 9, CODE_SUSTAIN 1, CODE_SUSTAIN 2, CODE_SUSTAIN 3, CODE_SUSTAIN 4,
               CODE_SUSTAIN 5, CODE_SUSTAIN 1, CODE_SUSTAIN 2, CODE_SUSTAIN 3, CODE_SUSTAIN 4,
               CODE_STOP].
     map_of [(CODE_SUSTAIN 9, 0 :: nat), (CODE_SUSTAIN 1, 1), (CODE_SUSTAIN 2, 2),
             (CODE_SUSTAIN 3, 3), (CODE_SUSTAIN 4, 4), (CODE_SUSTAIN 5, 5), (CODE_STOP, 6)] c
     = map_of [(CODE_SUSTAIN 9, 0), (CODE_SUSTAIN 1, 1), (CODE_SUSTAIN 2, 2),
               (CODE_SUSTAIN 3, 3), (CODE_SUSTAIN 4, 4), (CODE_SUSTAIN 5, 5), (CODE_STOP, 6)]
         CODE_STOP
     \<longrightarrow> c = CODE_STOP"
  by (simp add: CODE_SUSTAIN_def CODE_STOP_def)

theorem rewriter_branch_point_at_literal_position_witness:
  "prior_sound find_prior_longest [0, 1, 2, 3, 4, 5, 1, 2, 3, 4, 6]
   \<and> to_alphaSequence
       (map_of [(CODE_SUSTAIN 9, 0), (CODE_SUSTAIN 1, 1), (CODE_SUSTAIN 2, 2),
                (CODE_SUSTAIN 3, 3), (CODE_SUSTAIN 4, 4), (CODE_SUSTAIN 5, 5), (CODE_STOP, 6)])
       [CODE_SUSTAIN 9, CODE_SUSTAIN 1, CODE_SUSTAIN 2, CODE_SUSTAIN 3, CODE_SUSTAIN 4,
        CODE_SUSTAIN 5, CODE_SUSTAIN 1, CODE_SUSTAIN 2, CODE_SUSTAIN 3, CODE_SUSTAIN 4, CODE_STOP]
     = Inr [0, 1, 2, 3, 4, 5, 1, 2, 3, 4, 6]
   \<and> (\<exists>rw. rewrite_spans
         \<lparr>e_subsong = 0, e_channel = 0,
          e_codeSequence =
            [CODE_SUSTAIN 9, CODE_SUSTAIN 1, CODE_SUSTAIN 2, CODE_SUSTAIN 3, CODE_SUSTAIN 4,
             CODE_SUSTAIN 5, CODE_SUSTAIN 1, CODE_SUSTAIN 2, CODE_SUSTAIN 3, CODE_SUSTAIN 4,
             CODE_STOP],
          e_copyMap = [0, 1, 2, 3, 4, 5, 1, 2, 3, 4, 10],
          e_branchFrequencyMap =
            [[(1, 1)], [(2, 2)], [(3, 2)], [(4, 2)], [(5, 1), (10, 1)], [(1, 1)],
             [], [], [], [], []],
          e_skipMap = [1, 2, 3, 4, 10, 1, 2, 3, 4, 10, 0]\<rparr>
         [\<lparr>span_subsong = 0, span_channel = 0, span_start = 0, span_length = 6\<rparr>,
          \<lparr>span_subsong = 0, span_channel = 0, span_start = 1, span_length = 4\<rparr>,
          \<lparr>span_subsong = 0, span_channel = 0, span_start = 10, span_length = 1\<rparr>]
         \<lparr>r_compressedCodeSequence = [], r_spanSequence = [],
          r_labels = replicate 11 0, r_end = 0, r_lastJumpAddress = 0, r_totalGoto = 0\<rparr>
       = Inr rw
       \<and> r_compressedCodeSequence rw
           = [CODE_SUSTAIN 9, CODE_SUSTAIN 1, CODE_SUSTAIN 2, CODE_SUSTAIN 3,
              CODE_SUSTAIN 4, CODE_BRANCH_POINT, CODE_JUMP 0 0 10,
              CODE_SUSTAIN 5, CODE_TAKE_DATA_JUMP, CODE_JUMP 0 0 1, CODE_BRANCH_POINT]
       \<and> r_spanSequence rw = [CODE_SKIP, CODE_TAKE_DATA_JUMP, CODE_STOP]
       \<and> r_labels rw ! 4 = 4)"
proof -
  let ?alpha = "[0, 1, 2, 3, 4, 5, 1, 2, 3, 4, 6] :: AlphaChar list"
  let ?codes = "[CODE_SUSTAIN 9, CODE_SUSTAIN 1, CODE_SUSTAIN 2, CODE_SUSTAIN 3, CODE_SUSTAIN 4,
                 CODE_SUSTAIN 5, CODE_SUSTAIN 1, CODE_SUSTAIN 2, CODE_SUSTAIN 3, CODE_SUSTAIN 4,
                 CODE_STOP]"
  let ?P = "\<lparr>p_i = 11, p_copyMap = [0, 1, 2, 3, 4, 5, 1, 2, 3, 4, 10],
            p_branchFrequencyMap =
              [[(1, 1)], [(2, 2)], [(3, 2)], [(4, 2)], [(5, 1), (10, 1)], [(1, 1)],
               [], [], [], [], []],
            p_spans =
              [\<lparr>span_subsong = 0, span_channel = 0, span_start = 0, span_length = 6\<rparr>,
               \<lparr>span_subsong = 0, span_channel = 0, span_start = 1, span_length = 4\<rparr>],
            p_currentSpan =
              \<lparr>span_subsong = 0, span_channel = 0, span_start = 10, span_length = 1\<rparr>,
            p_nextSpan =
              \<lparr>span_subsong = 0, span_channel = 0, span_start = 0, span_length = 0\<rparr>\<rparr>"
  let ?envP = "\<lparr>e_subsong = 0, e_channel = 0, e_codeSequence = ?codes,
          e_copyMap = p_copyMap ?P, e_branchFrequencyMap = p_branchFrequencyMap ?P,
          e_skipMap = build_skipMap 0 (p_copyMap ?P) (p_branchFrequencyMap ?P)\<rparr>"
  let ?env = "\<lparr>e_subsong = 0, e_channel = 0, e_codeSequence = ?codes,
          e_copyMap = [0, 1, 2, 3, 4, 5, 1, 2, 3, 4, 10],
          e_branchFrequencyMap =
            [[(1, 1)], [(2, 2)], [(3, 2)], [(4, 2)], [(5, 1), (10, 1)], [(1, 1)],
             [], [], [], [], []],
          e_skipMap = [1, 2, 3, 4, 10, 1, 2, 3, 4, 10, 0]\<rparr>"
  let ?init = "\<lparr>r_compressedCodeSequence = [], r_spanSequence = [],
          r_labels = replicate 11 0, r_end = 0, r_lastJumpAddress = 0, r_totalGoto = 0\<rparr>"
  have s: "prior_sound find_prior_longest ?alpha" by (rule find_prior_longest_sound)
  have sk: "build_skipMap 0 [0, 1, 2, 3, 4, 5, 1, 2, 3, 4, 10]
         [[(1, 1)], [(2, 2)], [(3, 2)], [(4, 2)], [(5, 1), (10, 1)], [(1, 1)],
          [], [], [], [], []] = [1, 2, 3, 4, 10, 1, 2, 3, 4, 10, 0]"
    by code_simp
  have E: "?envP = ?env" by (simp only: parse_state.select_convs sk)
  have len: "length ?alpha = 11" by simp
  have D: "concat (map (rewriter_data_at ?env) [0..<11])
           = [CODE_SUSTAIN 9, CODE_SUSTAIN 1, CODE_SUSTAIN 2, CODE_SUSTAIN 3,
              CODE_SUSTAIN 4, CODE_BRANCH_POINT, CODE_JUMP 0 0 10,
              CODE_SUSTAIN 5, CODE_TAKE_DATA_JUMP, CODE_JUMP 0 0 1, CODE_BRANCH_POINT]"
    by code_simp
  have S: "concat (map (rewriter_span_at ?env) [0..<11])
           = [CODE_SKIP, CODE_TAKE_DATA_JUMP, CODE_STOP]"
    by code_simp
  have L: "length (concat (map (rewriter_data_at ?env) [0..<4])) = 4"
    by code_simp
  have F: "final_spans ?P
          = [\<lparr>span_subsong = 0, span_channel = 0, span_start = 0, span_length = 6\<rparr>,
             \<lparr>span_subsong = 0, span_channel = 0, span_start = 1, span_length = 4\<rparr>,
             \<lparr>span_subsong = 0, span_channel = 0, span_start = 10, span_length = 1\<rparr>]"
    by (simp add: final_spans_def)
  from rewriter_branch_point_at_literal_position
         [OF s example_index example_stop_last example_stop_own, of 0 0 0,
          unfolded len parse_example Let_def sum.inject]
  obtain parsed rw where p: "?P = parsed"
    and rest: "rewrite_spans
           \<lparr>e_subsong = 0, e_channel = 0, e_codeSequence = ?codes,
            e_copyMap = p_copyMap parsed,
            e_branchFrequencyMap = p_branchFrequencyMap parsed,
            e_skipMap = build_skipMap 0 (p_copyMap parsed) (p_branchFrequencyMap parsed)\<rparr>
           (final_spans parsed) ?init
         = Inr rw
       \<and> r_compressedCodeSequence rw
           = concat (map (rewriter_data_at
               \<lparr>e_subsong = 0, e_channel = 0, e_codeSequence = ?codes,
                e_copyMap = p_copyMap parsed,
                e_branchFrequencyMap = p_branchFrequencyMap parsed,
                e_skipMap = build_skipMap 0 (p_copyMap parsed) (p_branchFrequencyMap parsed)\<rparr>)
               [0..<11])
       \<and> r_spanSequence rw
           = concat (map (rewriter_span_at
               \<lparr>e_subsong = 0, e_channel = 0, e_codeSequence = ?codes,
                e_copyMap = p_copyMap parsed,
                e_branchFrequencyMap = p_branchFrequencyMap parsed,
                e_skipMap = build_skipMap 0 (p_copyMap parsed) (p_branchFrequencyMap parsed)\<rparr>)
               [0..<11])
       \<and> (4 < (11 :: nat) \<longrightarrow> p_copyMap parsed ! 4 = 4
              \<and> 2 \<le> length (p_branchFrequencyMap parsed ! 4) \<longrightarrow>
            r_labels rw ! 4 = length (concat (map (rewriter_data_at
               \<lparr>e_subsong = 0, e_channel = 0, e_codeSequence = ?codes,
                e_copyMap = p_copyMap parsed,
                e_branchFrequencyMap = p_branchFrequencyMap parsed,
                e_skipMap = build_skipMap 0 (p_copyMap parsed) (p_branchFrequencyMap parsed)\<rparr>)
               [0..<4])))"
    by blast
  note r = rest [folded p, unfolded E F D S L]
  from r have 1: "rewrite_spans ?env
         [\<lparr>span_subsong = 0, span_channel = 0, span_start = 0, span_length = 6\<rparr>,
          \<lparr>span_subsong = 0, span_channel = 0, span_start = 1, span_length = 4\<rparr>,
          \<lparr>span_subsong = 0, span_channel = 0, span_start = 10, span_length = 1\<rparr>]
         ?init = Inr rw"
    by (rule conjunct1)
  from r have 2: "r_compressedCodeSequence rw
           = [CODE_SUSTAIN 9, CODE_SUSTAIN 1, CODE_SUSTAIN 2, CODE_SUSTAIN 3,
              CODE_SUSTAIN 4, CODE_BRANCH_POINT, CODE_JUMP 0 0 10,
              CODE_SUSTAIN 5, CODE_TAKE_DATA_JUMP, CODE_JUMP 0 0 1, CODE_BRANCH_POINT]"
    by (rule conjunct2 [THEN conjunct1])
  from r have 3: "r_spanSequence rw = [CODE_SKIP, CODE_TAKE_DATA_JUMP, CODE_STOP]"
    by (rule conjunct2 [THEN conjunct2, THEN conjunct1])
  from r [THEN conjunct2, THEN conjunct2, THEN conjunct2]
  have 4: "r_labels rw ! 4 = 4" by simp
  from s example_index 1 2 3 4 show ?thesis by blast
qed

end
